theory Spec2Isabelle
  imports Complex_Main
begin

section \<open>Data model of \<^verbatim>\<open>scripts/detect_holds.py\<close>\<close>

text \<open>
  The script receives detections as JSON objects (Python dicts). A key may be absent, and
  the code reads most keys with \<^verbatim>\<open>dict.get(key, default)\<close>, so every key is an
  optional field. A polygon point is the pair of its \<^verbatim>\<open>"x"\<close> and \<^verbatim>\<open>"y"\<close> entries.

  Numbers: Python's \<^verbatim>\<open>int\<close> is \<^typ>\<open>int\<close>. Coordinates and confidences are JSON
  numbers; they are modelled as exact reals, so \<^verbatim>\<open>/\<close> is exact division and
  \<^verbatim>\<open>** 0.5\<close> is the real square root. Binary floating-point rounding error, NaN and
  infinities are outside this model.
\<close>

type_synonym point = "real \<times> real"

record prediction =
  p_points :: "point list option"
  p_x :: "real option"
  p_y :: "real option"
  p_width :: "real option"
  p_height :: "real option"
  p_confidence :: "real option"
  p_class :: "string option"

text \<open>The body of an HTTP response as \<^verbatim>\<open>response.json()\<close> sees it: not parseable, or a
  JSON object whose \<^verbatim>\<open>"predictions"\<close> entry may be absent.\<close>

datatype body = NotJson | JsonObject "prediction list option"

record response =
  status_code :: int
  text_of :: string
  json_of :: body

text \<open>Everything the script can raise on the paths modelled here.\<close>

datatype error =
    ApiError int string     \<comment> \<open>\<^verbatim>\<open>Exception(f"API error: {status_code} - {text}")\<close>\<close>
  | JSONDecodeError         \<comment> \<open>\<^verbatim>\<open>response.json()\<close> on a body that is not JSON\<close>
  | KeyError                \<comment> \<open>\<^verbatim>\<open>pred["x"]\<close> on a detection without that key\<close>
  | ZeroDivisionError       \<comment> \<open>division by a zero image width or height\<close>

section \<open>Detection client: \<^verbatim>\<open>call_api\<close>\<close>

text \<open>
  The remote service is a parameter: \<open>svc attempt\<close> is the response that
  \<^verbatim>\<open>requests.post\<close> returns to the request of loop iteration \<open>attempt\<close> (each iteration
  sends exactly one request). The observable effects of the call are kept in a log: how
  many requests were sent and the arguments of \<^verbatim>\<open>time.sleep\<close>, in order. The JPEG and
  base64 encoding of the tile and the transport are not modelled: every request is taken
  to come back with a response.
\<close>

record api_log =
  requests :: nat
  sleeps :: "nat list"

definition parse_predictions :: "response \<Rightarrow> error + prediction list" where
  \<comment> \<open>\<^verbatim>\<open>response.json().get("predictions", [])\<close>\<close>
  "parse_predictions r =
     (case json_of r of
        NotJson \<Rightarrow> Inl JSONDecodeError
      | JsonObject None \<Rightarrow> Inr []
      | JsonObject (Some ps) \<Rightarrow> Inr ps)"

function call_api_loop ::
  "(nat \<Rightarrow> response) \<Rightarrow> int \<Rightarrow> nat \<Rightarrow> api_log \<Rightarrow> (error + prediction list) \<times> api_log"
where
  "call_api_loop svc max_retries attempt lg =
     (if int attempt < max_retries then
        (let r = svc attempt;
             lg1 = lg\<lparr>requests := requests lg + 1\<rparr>
         in if status_code r = 200 then (parse_predictions r, lg1)
            else if status_code r \<ge> 500 \<and> int attempt < max_retries - 1 then
              call_api_loop svc max_retries (attempt + 1)
                (lg1\<lparr>sleeps := sleeps lg1 @ [2 ^ attempt]\<rparr>)
            else (Inl (ApiError (status_code r) (text_of r)), lg1))
      else (Inr [], lg))"
  by pat_completeness auto
termination
  by (relation "measure (\<lambda>(svc, max_retries, attempt, lg). nat (max_retries - int attempt))") auto

definition call_api :: "(nat \<Rightarrow> response) \<Rightarrow> int \<Rightarrow> (error + prediction list) \<times> api_log" where
  "call_api svc max_retries = call_api_loop svc max_retries 0 \<lparr>requests = 0, sleeps = []\<rparr>"

section \<open>Python arithmetic on the exact-real model\<close>

definition get_or :: "'a option \<Rightarrow> 'a \<Rightarrow> 'a" where
  \<comment> \<open>\<^verbatim>\<open>d.get(key, default)\<close> for an optional entry\<close>
  "get_or v dflt = (case v of None \<Rightarrow> dflt | Some a \<Rightarrow> a)"

definition py_int :: "real \<Rightarrow> int" where
  \<comment> \<open>\<^verbatim>\<open>int(r)\<close> truncates towards zero\<close>
  "py_int r = (if r < 0 then \<lceil>r\<rceil> else \<lfloor>r\<rfloor>)"

definition round_half_even :: "real \<Rightarrow> int" where
  "round_half_even r =
     (let f = \<lfloor>r\<rfloor>; d = r - of_int f
      in if d < 1 / 2 then f
         else if 1 / 2 < d then f + 1
         else if even f then f else f + 1)"

definition py_round :: "real \<Rightarrow> nat \<Rightarrow> real" where
  \<comment> \<open>\<^verbatim>\<open>round(r, ndigits)\<close>: nearest multiple of \<open>10 ^ -ndigits\<close>, halves to the even one\<close>
  "py_round r ndigits = of_int (round_half_even (r * 10 ^ ndigits)) / 10 ^ ndigits"

section \<open>Deduplicator: \<^verbatim>\<open>deduplicate_predictions\<close>\<close>

definition pred_center :: "prediction \<Rightarrow> point" where
  \<comment> \<open>the body of the loop that fills \<^verbatim>\<open>centers\<close>; it runs after the detections with an
      empty point list have been filtered out, so \<open>length pts\<close> is not zero there\<close>
  "pred_center pred =
     (case p_points pred of
        Some pts \<Rightarrow>
          (sum_list (map fst pts) / real (length pts),
           sum_list (map snd pts) / real (length pts))
      | None \<Rightarrow> (get_or (p_x pred) 0, get_or (p_y pred) 0))"

definition center_dist :: "point \<Rightarrow> point \<Rightarrow> real" where
  "center_dist a b = sqrt ((fst a - fst b)\<^sup>2 + (snd a - snd b)\<^sup>2)"

text \<open>
  The inner loop \<^verbatim>\<open>for j in range(i + 1, len(predictions))\<close>, from index \<open>j\<close> on. A
  \<^verbatim>\<open>continue\<close> is the recursive call with \<open>keep\<close> unchanged, the \<^verbatim>\<open>break\<close> returns.
\<close>

function dedup_inner ::
  "prediction list \<Rightarrow> point list \<Rightarrow> real \<Rightarrow> nat \<Rightarrow> nat \<Rightarrow> bool list \<Rightarrow> bool list"
where
  "dedup_inner predictions centers threshold i j keep =
     (if j < length predictions then
        (if \<not> keep ! j then dedup_inner predictions centers threshold i (j + 1) keep
         else if center_dist (centers ! i) (centers ! j) < threshold then
           (if get_or (p_confidence (predictions ! i)) 0
                 \<ge> get_or (p_confidence (predictions ! j)) 0
            then dedup_inner predictions centers threshold i (j + 1) (keep[j := False])
            else keep[i := False])
         else dedup_inner predictions centers threshold i (j + 1) keep)
      else keep)"
  by pat_completeness auto
termination
  by (relation "measure (\<lambda>(predictions, centers, threshold, i, j, keep). length predictions - j)")
     auto

text \<open>The outer loop \<^verbatim>\<open>for i in range(len(predictions))\<close>, from index \<open>i\<close> on.\<close>

function dedup_outer ::
  "prediction list \<Rightarrow> point list \<Rightarrow> real \<Rightarrow> nat \<Rightarrow> bool list \<Rightarrow> bool list"
where
  "dedup_outer predictions centers threshold i keep =
     (if i < length predictions then
        (if \<not> keep ! i then dedup_outer predictions centers threshold (i + 1) keep
         else dedup_outer predictions centers threshold (i + 1)
                (dedup_inner predictions centers threshold i (i + 1) keep))
      else keep)"
  by pat_completeness auto
termination
  by (relation "measure (\<lambda>(predictions, centers, threshold, i, keep). length predictions - i)")
     auto

definition nonempty_points :: "prediction list \<Rightarrow> prediction list" where
  \<comment> \<open>\<^verbatim>\<open>[p for p in predictions if not ("points" in p and len(p["points"]) == 0)]\<close>\<close>
  "nonempty_points predictions = filter (\<lambda>p. p_points p \<noteq> Some []) predictions"

definition dedup_keep :: "prediction list \<Rightarrow> real \<Rightarrow> bool list" where
  \<comment> \<open>the list \<^verbatim>\<open>keep\<close> when both loops are done, for the filtered list\<close>
  "dedup_keep predictions threshold =
     dedup_outer predictions (map pred_center predictions) threshold 0
       (replicate (length predictions) True)"

definition deduplicate_predictions :: "prediction list \<Rightarrow> real \<Rightarrow> prediction list" where
  "deduplicate_predictions predictions threshold =
     (if predictions = [] then []
      else
        (let predictions1 = nonempty_points predictions;
             keep = dedup_keep predictions1 threshold
         in map fst (filter snd (zip predictions1 keep))))"

section \<open>Tiler and coordinate mapper (the tile loop of \<^verbatim>\<open>detect_holds\<close>)\<close>

definition tile_cols :: nat where "tile_cols = 3"
definition tile_rows :: nat where "tile_rows = 3"

definition overlap :: real where
  \<comment> \<open>the literal \<^verbatim>\<open>0.3\<close>\<close>
  "overlap = 3 / 10"

type_synonym bounds = "int \<times> int \<times> int \<times> int"  \<comment> \<open>\<open>(x1, y1, x2, y2)\<close>\<close>

definition tile_bounds :: "int \<Rightarrow> int \<Rightarrow> nat \<Rightarrow> nat \<Rightarrow> bounds" where
  "tile_bounds width height row col =
     (let tile_width = width div int tile_cols;
          tile_height = height div int tile_rows;
          overlap_x = py_int (real_of_int tile_width * overlap);
          overlap_y = py_int (real_of_int tile_height * overlap);
          x1 = max 0 (int col * tile_width - overlap_x);
          y1 = max 0 (int row * tile_height - overlap_y);
          x2 = min width ((int col + 1) * tile_width + overlap_x);
          y2 = min height ((int row + 1) * tile_height + overlap_y)
      in (x1, y1, x2, y2))"

definition grid :: "(nat \<times> nat) list" where
  \<comment> \<open>the cells in the order the nested \<^verbatim>\<open>for row ... for col ...\<close> visits them\<close>
  "grid = concat (map (\<lambda>row. map (\<lambda>col. (row, col)) [0..<tile_cols]) [0..<tile_rows])"

definition tiles :: "int \<Rightarrow> int \<Rightarrow> bounds list" where
  "tiles width height = map (\<lambda>(row, col). tile_bounds width height row col) grid"

definition in_tile :: "bounds \<Rightarrow> int \<Rightarrow> int \<Rightarrow> bool" where
  \<comment> \<open>pixel \<open>(x, y)\<close> belongs to the slice \<^verbatim>\<open>image[y1:y2, x1:x2]\<close> (bounds are not negative)\<close>
  "in_tile t x y = (case t of (x1, y1, x2, y2) \<Rightarrow> x1 \<le> x \<and> x < x2 \<and> y1 \<le> y \<and> y < y2)"

definition covering_tiles :: "int \<Rightarrow> int \<Rightarrow> int \<Rightarrow> int \<Rightarrow> bounds list" where
  "covering_tiles width height x y = filter (\<lambda>t. in_tile t x y) (tiles width height)"

definition adjust :: "int \<Rightarrow> int \<Rightarrow> prediction \<Rightarrow> error + prediction" where
  \<comment> \<open>the body of \<^verbatim>\<open>for pred in predictions\<close>: the in-place shift by the tile origin;
      \<^verbatim>\<open>pred["x"]\<close> and \<^verbatim>\<open>pred["y"]\<close> are plain subscripts and raise on a missing key\<close>
  "adjust x1 y1 pred =
     (case p_points pred of
        Some pts \<Rightarrow>
          Inr (pred\<lparr>p_points := Some (map (\<lambda>(x, y). (x + real_of_int x1, y + real_of_int y1)) pts)\<rparr>)
      | None \<Rightarrow>
          (case p_x pred of
             None \<Rightarrow> Inl KeyError
           | Some x \<Rightarrow>
               (case p_y pred of
                  None \<Rightarrow> Inl KeyError
                | Some y \<Rightarrow>
                    Inr (pred\<lparr>p_x := Some (x + real_of_int x1),
                              p_y := Some (y + real_of_int y1)\<rparr>))))"

fun adjust_all :: "int \<Rightarrow> int \<Rightarrow> prediction list \<Rightarrow> error + prediction list" where
  "adjust_all x1 y1 [] = Inr []"
| "adjust_all x1 y1 (pred # rest) =
     (case adjust x1 y1 pred of
        Inl e \<Rightarrow> Inl e
      | Inr pred' \<Rightarrow>
          (case adjust_all x1 y1 rest of
             Inl e \<Rightarrow> Inl e
           | Inr rest' \<Rightarrow> Inr (pred' # rest')))"

text \<open>
  The tile loop. \<open>svc row col\<close> is the remote service as it answers the requests for the
  tile of cell \<open>(row, col)\<close>; \<^verbatim>\<open>call_api\<close> is called with its default of 3 retries. An
  exception of any tile ends the loop, as nothing in \<^verbatim>\<open>detect_holds\<close> catches it.
\<close>

fun collect_tiles ::
  "(nat \<Rightarrow> nat \<Rightarrow> nat \<Rightarrow> response) \<Rightarrow> int \<Rightarrow> int \<Rightarrow> (nat \<times> nat) list \<Rightarrow> error + prediction list"
where
  "collect_tiles svc width height [] = Inr []"
| "collect_tiles svc width height ((row, col) # cells) =
     (case tile_bounds width height row col of
        (x1, y1, x2, y2) \<Rightarrow>
          (case fst (call_api (svc row col) 3) of
             Inl e \<Rightarrow> Inl e
           | Inr predictions \<Rightarrow>
               (case adjust_all x1 y1 predictions of
                  Inl e \<Rightarrow> Inl e
                | Inr adjusted \<Rightarrow>
                    (case collect_tiles svc width height cells of
                       Inl e \<Rightarrow> Inl e
                     | Inr later \<Rightarrow> Inr (adjusted @ later)))))"

section \<open>Result assembler (the second loop of \<^verbatim>\<open>detect_holds\<close>)\<close>

record hold =
  h_polygon :: "point list"
  h_center :: point
  h_dominant_color :: string
  h_confidence :: real
  h_class :: string

definition to_percent :: "real \<Rightarrow> int \<Rightarrow> real" where
  \<comment> \<open>\<^verbatim>\<open>round((v / width) * 100, 2)\<close>, the expression of lines 205 to 207 and 224 to 230\<close>
  "to_percent v extent = py_round ((v / real_of_int extent) * 100) 2"

definition to_pixel :: "real \<Rightarrow> int \<Rightarrow> int" where
  \<comment> \<open>\<^verbatim>\<open>int((center_x / 100) * width)\<close>, lines 236 and 237\<close>
  "to_pixel percent extent = py_int ((percent / 100) * real_of_int extent)"

definition mean :: "real list \<Rightarrow> real" where
  \<comment> \<open>\<^verbatim>\<open>sum(...) / len(...)\<close>\<close>
  "mean vs = sum_list vs / real (length vs)"

definition box_corners :: "int \<Rightarrow> int \<Rightarrow> prediction \<Rightarrow> point list" where
  "box_corners width height pred =
     (let x = get_or (p_x pred) 0;
          y = get_or (p_y pred) 0;
          w = get_or (p_width pred) 0;
          h = get_or (p_height pred) 0
      in [(to_percent (x - w / 2) width, to_percent (y - h / 2) height),
          (to_percent (x + w / 2) width, to_percent (y - h / 2) height),
          (to_percent (x + w / 2) width, to_percent (y + h / 2) height),
          (to_percent (x - w / 2) width, to_percent (y + h / 2) height)])"

text \<open>
  Lines 200 to 230: the polygon and the center of one detection. \<open>Inr None\<close> is the
  \<^verbatim>\<open>continue\<close> on an empty polygon (no point is visited, so nothing is divided).
\<close>

definition polygon_and_center ::
  "int \<Rightarrow> int \<Rightarrow> prediction \<Rightarrow> error + (point list \<times> point) option"
where
  "polygon_and_center width height pred =
     (case p_points pred of
        Some pts \<Rightarrow>
          (if pts = [] then Inr None
           else if width = 0 \<or> height = 0 then Inl ZeroDivisionError
           else
             (let polygon = map (\<lambda>(x, y). (to_percent x width, to_percent y height)) pts;
                  center_x = mean (map fst polygon);
                  center_y = mean (map snd polygon)
              in Inr (Some (polygon, (center_x, center_y)))))
      | None \<Rightarrow>
          (if width = 0 \<or> height = 0 then Inl ZeroDivisionError
           else
             (let polygon = box_corners width height pred;
                  center_x = to_percent (get_or (p_x pred) 0) width;
                  center_y = to_percent (get_or (p_y pred) 0) height
              in Inr (Some (polygon, (center_x, center_y))))))"

definition sample_bounds :: "int \<Rightarrow> int \<Rightarrow> point \<Rightarrow> bounds" where
  "sample_bounds width height center =
     (let cx_px = to_pixel (fst center) width;
          cy_px = to_pixel (snd center) height;
          sample_size = 5;
          x1 = max 0 (cx_px - sample_size);
          x2 = min width (cx_px + sample_size);
          y1 = max 0 (cy_px - sample_size);
          y2 = min height (cy_px + sample_size)
      in (x1, y1, x2, y2))"

text \<open>
  The pixel buffer is a parameter: \<open>sample (x1, y1, x2, y2)\<close> is the colour string that
  lines 245 to 252 compute from \<^verbatim>\<open>image[y1:y2, x1:x2]\<close> (the formatted mean colour, or
  \<^verbatim>\<open>"#888888"\<close> for an empty region).
\<close>

definition make_hold ::
  "(bounds \<Rightarrow> string) \<Rightarrow> int \<Rightarrow> int \<Rightarrow> prediction \<Rightarrow> real \<Rightarrow> point list \<Rightarrow> point \<Rightarrow> hold"
where
  "make_hold sample width height pred conf polygon center =
     \<lparr>h_polygon = polygon,
      h_center = (py_round (fst center) 2, py_round (snd center) 2),
      h_dominant_color = sample (sample_bounds width height center),
      h_confidence = py_round conf 3,
      h_class = get_or (p_class pred) ''hold''\<rparr>"

definition assemble_one ::
  "(bounds \<Rightarrow> string) \<Rightarrow> int \<Rightarrow> int \<Rightarrow> real \<Rightarrow> prediction \<Rightarrow> error + hold option"
where
  \<comment> \<open>the body of \<^verbatim>\<open>for pred in predictions\<close>; \<open>Inr None\<close> is a \<^verbatim>\<open>continue\<close>\<close>
  "assemble_one sample width height confidence pred =
     (let conf = get_or (p_confidence pred) 0
      in if conf < confidence then Inr None
         else
           (case polygon_and_center width height pred of
              Inl e \<Rightarrow> Inl e
            | Inr None \<Rightarrow> Inr None
            | Inr (Some (polygon, center)) \<Rightarrow>
                Inr (Some (make_hold sample width height pred conf polygon center))))"

fun assemble ::
  "(bounds \<Rightarrow> string) \<Rightarrow> int \<Rightarrow> int \<Rightarrow> real \<Rightarrow> prediction list \<Rightarrow> error + hold list"
where
  "assemble sample width height confidence [] = Inr []"
| "assemble sample width height confidence (pred # rest) =
     (case assemble_one sample width height confidence pred of
        Inl e \<Rightarrow> Inl e
      | Inr r \<Rightarrow>
          (case assemble sample width height confidence rest of
             Inl e \<Rightarrow> Inl e
           | Inr detected \<Rightarrow>
               Inr (case r of None \<Rightarrow> detected | Some h \<Rightarrow> h # detected)))"

section \<open>The pipeline: \<^verbatim>\<open>detect_holds\<close>\<close>

definition working_size :: "int \<Rightarrow> int \<Rightarrow> int \<times> int" where
  \<comment> \<open>lines 132 to 142: \<open>(new_width, new_height)\<close> for an image of the given size\<close>
  "working_size orig_width orig_height =
     (let max_dimension = 4096
      in if max orig_height orig_width > max_dimension then
           (let scale = real_of_int max_dimension / real_of_int (max orig_height orig_width)
            in (py_int (real_of_int orig_width * scale), py_int (real_of_int orig_height * scale)))
         else (orig_width, orig_height))"

text \<open>
  \<open>width\<close> and \<open>height\<close> are those of the working image (\<^verbatim>\<open>image.shape\<close> after the
  resize step); the preview drawing does not contribute to the returned list.
\<close>

definition detect_holds ::
  "(nat \<Rightarrow> nat \<Rightarrow> nat \<Rightarrow> response) \<Rightarrow> (bounds \<Rightarrow> string) \<Rightarrow> int \<Rightarrow> int \<Rightarrow> real \<Rightarrow> error + hold list"
where
  "detect_holds svc sample width height confidence =
     (case collect_tiles svc width height grid of
        Inl e \<Rightarrow> Inl e
      | Inr all_predictions \<Rightarrow>
          assemble sample width height confidence (deduplicate_predictions all_predictions 20))"

section \<open>Auxiliary predicates and example inputs\<close>

text \<open>Invariants of the two deduplication loops, over the list \<^verbatim>\<open>keep\<close>.\<close>

definition separated_below :: "point list \<Rightarrow> real \<Rightarrow> nat \<Rightarrow> bool list \<Rightarrow> bool" where
  \<comment> \<open>every kept index below \<open>i\<close> is at least the threshold away from every later kept index\<close>
  "separated_below cs t i keep \<longleftrightarrow>
     (\<forall>a b. a < i \<longrightarrow> a < b \<longrightarrow> b < length keep \<longrightarrow> keep ! a \<longrightarrow> keep ! b \<longrightarrow>
            \<not> center_dist (cs ! a) (cs ! b) < t)"

definition removal_cause :: "prediction list \<Rightarrow> point list \<Rightarrow> real \<Rightarrow> nat \<Rightarrow> nat \<Rightarrow> bool" where
  \<comment> \<open>\<open>b\<close> is the one the loop body marks when it compares the pair of \<open>a\<close> and \<open>b\<close>\<close>
  "removal_cause ps cs t a b \<longleftrightarrow>
     a \<noteq> b \<and> center_dist (cs ! a) (cs ! b) < t \<and>
     (a < b \<and> get_or (p_confidence (ps ! b)) 0 \<le> get_or (p_confidence (ps ! a)) 0
      \<or> b < a \<and> get_or (p_confidence (ps ! b)) 0 < get_or (p_confidence (ps ! a)) 0)"

definition removals_caused :: "prediction list \<Rightarrow> point list \<Rightarrow> real \<Rightarrow> bool list \<Rightarrow> bool" where
  "removals_caused ps cs t keep \<longleftrightarrow>
     (\<forall>b. b < length keep \<longrightarrow> \<not> keep ! b \<longrightarrow>
          (\<exists>a. a < length keep \<and> removal_cause ps cs t a b))"

text \<open>Example detections: a box of 10 by 10 pixels with the given center and confidence.\<close>

definition box_detection :: "real \<Rightarrow> real \<Rightarrow> real \<Rightarrow> prediction" where
  "box_detection x y c =
     \<lparr>p_points = None, p_x = Some x, p_y = Some y, p_width = Some 10, p_height = Some 10,
      p_confidence = Some c, p_class = None\<rparr>"

definition chain_example :: "prediction list" where
  \<comment> \<open>three boxes on a line, 15 pixels apart, with falling confidence\<close>
  "chain_example =
     [box_detection 0 0 (9 / 10), box_detection 15 0 (5 / 10), box_detection 30 0 (3 / 10)]"

text \<open>Example services, as functions of the attempt number.\<close>

definition always_503 :: "nat \<Rightarrow> response" where
  "always_503 attempt =
     \<lparr>status_code = 503, text_of = ''Service Unavailable'', json_of = NotJson\<rparr>"

definition recovering :: "nat \<Rightarrow> response" where
  \<comment> \<open>503 twice, then 200 with one detection\<close>
  "recovering attempt =
     (if attempt < 2 then always_503 attempt
      else \<lparr>status_code = 200, text_of = ''ok'',
            json_of = JsonObject (Some [box_detection 40 50 (9 / 10)])\<rparr>)"

definition not_found :: "nat \<Rightarrow> response" where
  "not_found attempt = \<lparr>status_code = 404, text_of = ''Not Found'', json_of = NotJson\<rparr>"

definition outage :: "nat \<Rightarrow> nat \<Rightarrow> nat \<Rightarrow> response" where
  \<comment> \<open>the service is down for every tile\<close>
  "outage row col attempt = always_503 attempt"

definition gray_sample :: "bounds \<Rightarrow> string" where
  \<comment> \<open>a pixel buffer of uniform gray\<close>
  "gray_sample region = ''#888888''"

text \<open>The column spans (and row spans) of the nine tiles of a 300 by 300 image.\<close>

definition spans_300 :: "(int \<times> int) set" where
  "spans_300 = {(0, 130), (70, 230), (170, 300)}"

text \<open>Geometry inside a rectangle of the given size, and percentages inside \<open>[0, 100]\<close>.\<close>

definition in_image :: "int \<Rightarrow> int \<Rightarrow> point \<Rightarrow> bool" where
  "in_image width height pt \<longleftrightarrow>
     0 \<le> fst pt \<and> fst pt \<le> real_of_int width \<and> 0 \<le> snd pt \<and> snd pt \<le> real_of_int height"

definition within_image :: "int \<Rightarrow> int \<Rightarrow> prediction \<Rightarrow> bool" where
  \<comment> \<open>all polygon points, or the two opposite corners of the box, lie in the rectangle\<close>
  "within_image width height pred =
     (case p_points pred of
        Some pts \<Rightarrow> list_all (in_image width height) pts
      | None \<Rightarrow>
          (let x = get_or (p_x pred) 0;
               y = get_or (p_y pred) 0;
               w = get_or (p_width pred) 0;
               h = get_or (p_height pred) 0
           in in_image width height (x - w / 2, y - h / 2) \<and>
              in_image width height (x + w / 2, y + h / 2)))"

definition percent_point :: "point \<Rightarrow> bool" where
  "percent_point pt \<longleftrightarrow> 0 \<le> fst pt \<and> fst pt \<le> 100 \<and> 0 \<le> snd pt \<and> snd pt \<le> 100"

definition hold_in_range :: "hold \<Rightarrow> bool" where
  "hold_in_range h \<longleftrightarrow> list_all percent_point (h_polygon h) \<and> percent_point (h_center h)"

definition tile_within :: "(nat \<Rightarrow> nat \<Rightarrow> nat \<Rightarrow> response) \<Rightarrow> int \<Rightarrow> int \<Rightarrow> nat \<times> nat \<Rightarrow> bool" where
  \<comment> \<open>whatever the client returns for the tile of a cell lies inside the submitted region\<close>
  "tile_within svc width height cell =
     (case cell of
        (row, col) \<Rightarrow>
          (case tile_bounds width height row col of
             (x1, y1, x2, y2) \<Rightarrow>
               (case fst (call_api (svc row col) 3) of
                  Inl e \<Rightarrow> True
                | Inr predictions \<Rightarrow> list_all (within_image (x2 - x1) (y2 - y1)) predictions)))"

definition service_within_tiles :: "(nat \<Rightarrow> nat \<Rightarrow> nat \<Rightarrow> response) \<Rightarrow> int \<Rightarrow> int \<Rightarrow> bool" where
  "service_within_tiles svc width height = list_all (tile_within svc width height) grid"

text \<open>Example services for the whole pipeline.\<close>

definition no_detections :: "nat \<Rightarrow> response" where
  "no_detections attempt = \<lparr>status_code = 200, text_of = ''ok'', json_of = JsonObject None\<rparr>"

definition one_box :: "real \<Rightarrow> real \<Rightarrow> nat \<Rightarrow> nat \<Rightarrow> nat \<Rightarrow> response" where
  \<comment> \<open>the tile of cell \<open>(0, 0)\<close> holds one box of confidence 0.9, the others hold nothing\<close>
  "one_box x y row col attempt =
     (if row = 0 \<and> col = 0
      then \<lparr>status_code = 200, text_of = ''ok'',
            json_of = JsonObject (Some [box_detection x y (9 / 10)])\<rparr>
      else no_detections attempt)"

definition triangle_detection :: prediction where
  "triangle_detection =
     \<lparr>p_points = Some [(30, 30), (60, 30), (30, 60)], p_x = None, p_y = None,
      p_width = None, p_height = None, p_confidence = Some (8 / 10), p_class = Some ''jug''\<rparr>"

definition centered_hold :: hold where
  \<comment> \<open>what a 300 by 300 image yields for the box at \<open>(40, 50)\<close>\<close>
  "centered_hold =
     \<lparr>h_polygon = [(1167 / 100, 15), (15, 15), (15, 1833 / 100), (1167 / 100, 1833 / 100)],
      h_center = (1333 / 100, 1667 / 100), h_dominant_color = ''#888888'',
      h_confidence = 9 / 10, h_class = ''hold''\<rparr>"

definition edge_hold :: hold where
  \<comment> \<open>what a 300 by 300 image yields for the box at \<open>(4, 50)\<close>, which reaches over the left edge\<close>
  "edge_hold =
     \<lparr>h_polygon = [(- (33 / 100), 15), (3, 15), (3, 1833 / 100), (- (33 / 100), 1833 / 100)],
      h_center = (133 / 100, 1667 / 100), h_dominant_color = ''#888888'',
      h_confidence = 9 / 10, h_class = ''hold''\<rparr>"

text \<open>
  The pairwise rule of the deduplicator, stated without the loops: what reaching one pair
  \<open>(i, j)\<close> does to the flags, and the order in which the pairs are reached.
\<close>

definition visit_pair :: "prediction list \<Rightarrow> real \<Rightarrow> bool list \<Rightarrow> nat \<times> nat \<Rightarrow> bool list" where
  \<comment> \<open>both still unmarked and closer than the threshold: the lower confidence is marked,
      \<open>j\<close> on a tie; otherwise nothing is marked\<close>
  "visit_pair fs t keep pair =
     (case pair of
        (i, j) \<Rightarrow>
          if keep ! i \<and> keep ! j \<and>
             center_dist (pred_center (fs ! i)) (pred_center (fs ! j)) < t
          then (if get_or (p_confidence (fs ! j)) 0 \<le> get_or (p_confidence (fs ! i)) 0
                then keep[j := False]
                else keep[i := False])
          else keep)"

definition index_pairs :: "nat \<Rightarrow> (nat \<times> nat) list" where
  \<comment> \<open>the pairs \<open>(i, j)\<close> with \<open>i < j < n\<close>, by rising \<open>i\<close> and then rising \<open>j\<close>\<close>
  "index_pairs n = concat (map (\<lambda>i. map (\<lambda>j. (i, j)) [i + 1..<n]) [0..<n])"

definition pair_before :: "nat \<times> nat \<Rightarrow> nat \<times> nat \<Rightarrow> bool" where
  "pair_before p q \<longleftrightarrow> fst p < fst q \<or> fst p = fst q \<and> snd p < snd q"

definition break_example :: "prediction list" where
  \<comment> \<open>the first box marks the second and is then marked by the third\<close>
  "break_example =
     [box_detection 0 0 (3 / 10), box_detection (- 15) 0 (2 / 10), box_detection 15 0 (9 / 10)]"

section \<open>Properties of the deduplicator\<close>

declare dedup_inner.simps [simp del] dedup_outer.simps [simp del]

lemma center_dist_sym: "center_dist a b = center_dist b a"
  by (simp add: center_dist_def power2_commute)

lemma center_dist_less_iff:
  "center_dist a b < t \<longleftrightarrow> 0 < t \<and> (fst a - fst b)\<^sup>2 + (snd a - snd b)\<^sup>2 < t\<^sup>2"
proof (cases "0 < t")
  case True
  then have t: "sqrt (t\<^sup>2) = t" by simp
  have "sqrt ((fst a - fst b)\<^sup>2 + (snd a - snd b)\<^sup>2) < sqrt (t\<^sup>2)
          \<longleftrightarrow> (fst a - fst b)\<^sup>2 + (snd a - snd b)\<^sup>2 < t\<^sup>2"
    by (rule real_sqrt_less_iff)
  then have "center_dist a b < t \<longleftrightarrow> (fst a - fst b)\<^sup>2 + (snd a - snd b)\<^sup>2 < t\<^sup>2"
    unfolding center_dist_def by (simp only: t)
  with True show ?thesis by simp
next
  case False
  have "0 \<le> center_dist a b" by (simp add: center_dist_def)
  with False show ?thesis by auto
qed

lemma nth_update_False: "xs[j := False] ! k \<Longrightarrow> xs ! k"
  by (cases "j < length xs"; cases "k = j") (auto simp: list_update_beyond)

lemma dedup_inner_length:
  "length (dedup_inner ps cs t i j keep) = length keep"
  by (induction ps cs t i j keep rule: dedup_inner.induct)
     (subst dedup_inner.simps, simp)

lemma dedup_inner_mono:
  "k < length keep \<Longrightarrow> dedup_inner ps cs t i j keep ! k \<Longrightarrow> keep ! k"
proof (induction ps cs t i j keep rule: dedup_inner.induct)
  case (1 ps cs t i j keep)
  from "1.prems"(2) "1.prems"(1) "1.IH" show ?case
    unfolding dedup_inner.simps[of ps cs t i j keep]
    by (auto split: if_splits dest: nth_update_False)
qed

text \<open>If \<open>i\<close> is still kept when its inner loop ends, nothing kept from \<open>j\<close> on is near it.\<close>

lemma dedup_inner_separates:
  "i < j \<Longrightarrow> i < length keep \<Longrightarrow> length keep = length ps \<Longrightarrow>
   dedup_inner ps cs t i j keep ! i \<Longrightarrow>
   j \<le> k \<Longrightarrow> k < length ps \<Longrightarrow> dedup_inner ps cs t i j keep ! k \<Longrightarrow>
   \<not> center_dist (cs ! i) (cs ! k) < t"
proof (induction ps cs t i j keep rule: dedup_inner.induct)
  case (1 ps cs t i j keep)
  let ?r = "dedup_inner ps cs t i j keep"
  have jlt: "j < length ps" using "1.prems" by simp
  show ?case
  proof (cases "k = j")
    case True
    have kj: "keep ! j"
      using dedup_inner_mono[of j keep ps cs t i j] "1.prems" True by simp
    show ?thesis
    proof
      assume near: "center_dist (cs ! i) (cs ! k) < t"
      show False
      proof (cases "get_or (p_confidence (ps ! i)) 0 \<ge> get_or (p_confidence (ps ! j)) 0")
        case True
        then have eq: "?r = dedup_inner ps cs t i (j + 1) (keep[j := False])"
          using jlt kj near \<open>k = j\<close> by (subst dedup_inner.simps) simp
        have "(keep[j := False]) ! j"
          using dedup_inner_mono[of j "keep[j := False]" ps cs t i "j + 1"] "1.prems" \<open>k = j\<close> eq
          by simp
        then show False using jlt "1.prems" by simp
      next
        case False
        then have "?r = keep[i := False]"
          using jlt kj near \<open>k = j\<close> by (subst dedup_inner.simps) simp
        then show False using "1.prems" by simp
      qed
    qed
  next
    case False
    then have k: "j + 1 \<le> k" using "1.prems" by simp
    show ?thesis
    proof (cases "keep ! j")
      case kj: False
      then have eq: "?r = dedup_inner ps cs t i (j + 1) keep"
        using jlt by (subst dedup_inner.simps) simp
      show ?thesis using "1.IH"(1)[OF jlt kj] "1.prems" k eq by simp
    next
      case kj: True
      show ?thesis
      proof (cases "center_dist (cs ! i) (cs ! j) < t")
        case near: True
        show ?thesis
        proof (cases "get_or (p_confidence (ps ! i)) 0 \<ge> get_or (p_confidence (ps ! j)) 0")
          case True
          then have eq: "?r = dedup_inner ps cs t i (j + 1) (keep[j := False])"
            using jlt kj near by (subst dedup_inner.simps) simp
          show ?thesis using "1.IH"(2)[OF jlt _ near True] kj "1.prems" k eq by simp
        next
          case False
          then have "?r = keep[i := False]"
            using jlt kj near by (subst dedup_inner.simps) simp
          then show ?thesis using "1.prems" by simp
        qed
      next
        case far: False
        then have eq: "?r = dedup_inner ps cs t i (j + 1) keep"
          using jlt kj by (subst dedup_inner.simps) simp
        show ?thesis using "1.IH"(3)[OF jlt _ far] kj "1.prems" k eq by simp
      qed
    qed
  qed
qed


lemma dedup_outer_length:
  "length (dedup_outer ps cs t i keep) = length keep"
  by (induction ps cs t i keep rule: dedup_outer.induct)
     (subst dedup_outer.simps, simp add: dedup_inner_length)

lemma dedup_outer_mono:
  "k < length keep \<Longrightarrow> dedup_outer ps cs t i keep ! k \<Longrightarrow> keep ! k"
proof (induction ps cs t i keep rule: dedup_outer.induct)
  case (1 ps cs t i keep)
  from "1.prems"(2) "1.prems"(1) "1.IH" show ?case
    unfolding dedup_outer.simps[of ps cs t i keep]
    by (auto split: if_splits simp: dedup_inner_length dest: dedup_inner_mono)
qed

lemma dedup_outer_separates:
  "length keep = length ps \<Longrightarrow> separated_below cs t i keep \<Longrightarrow>
   separated_below cs t (length ps) (dedup_outer ps cs t i keep)"
proof (induction ps cs t i keep rule: dedup_outer.induct)
  case (1 ps cs t i keep)
  let ?r = "dedup_outer ps cs t i keep"
  show ?case
  proof (cases "i < length ps")
    case False
    then have "?r = keep" by (subst dedup_outer.simps) simp
    moreover have "separated_below cs t (length ps) keep"
      using "1.prems" False unfolding separated_below_def by auto
    ultimately show ?thesis by simp
  next
    case ilt: True
    show ?thesis
    proof (cases "keep ! i")
      case False
      then have eq: "?r = dedup_outer ps cs t (i + 1) keep"
        using ilt by (subst dedup_outer.simps) simp
      have "separated_below cs t (i + 1) keep"
        using "1.prems"(2) False unfolding separated_below_def
        by (auto simp: less_Suc_eq)
      then show ?thesis using "1.IH"(1)[OF ilt False "1.prems"(1)] eq by simp
    next
      case True
      let ?k = "dedup_inner ps cs t i (i + 1) keep"
      have eq: "?r = dedup_outer ps cs t (i + 1) ?k"
        using ilt True by (subst dedup_outer.simps) simp
      have len: "length ?k = length ps" using "1.prems"(1) by (simp add: dedup_inner_length)
      have "separated_below cs t (i + 1) ?k"
        unfolding separated_below_def
      proof (intro allI impI)
        fix a b
        assume a: "a < i + 1" "a < b" "b < length ?k" "?k ! a" "?k ! b"
        show "\<not> center_dist (cs ! a) (cs ! b) < t"
        proof (cases "a = i")
          case True
          then show ?thesis
            using dedup_inner_separates[of i "i + 1" keep ps cs t b] a ilt "1.prems"(1) len
            by simp
        next
          case False
          then have "a < i" using a by simp
          moreover have "keep ! a" "keep ! b"
            using a len "1.prems"(1) dedup_inner_mono[of a keep ps cs t i "i + 1"]
              dedup_inner_mono[of b keep ps cs t i "i + 1"] by simp_all
          ultimately show ?thesis
            using "1.prems" a len unfolding separated_below_def by simp
        qed
      qed
      then show ?thesis using "1.IH"(2)[OF ilt _ len] True eq by simp
    qed
  qed
qed


lemma removals_caused_update:
  "removals_caused ps cs t keep \<Longrightarrow> a < length keep \<Longrightarrow> removal_cause ps cs t a b \<Longrightarrow>
   removals_caused ps cs t (keep[b := False])"
  unfolding removals_caused_def
  by (metis length_list_update nth_list_update_neq)

lemma dedup_inner_caused:
  "i < j \<Longrightarrow> length keep = length ps \<Longrightarrow> removals_caused ps cs t keep \<Longrightarrow>
   removals_caused ps cs t (dedup_inner ps cs t i j keep)"
proof (induction ps cs t i j keep rule: dedup_inner.induct)
  case (1 ps cs t i j keep)
  let ?ci = "get_or (p_confidence (ps ! i)) 0" and ?cj = "get_or (p_confidence (ps ! j)) 0"
  show ?case
  proof (cases "j < length ps")
    case False
    then show ?thesis using "1.prems" by (subst dedup_inner.simps) simp
  next
    case jlt: True
    then have ilt: "i < length keep" "j < length keep" using "1.prems" by simp_all
    consider (skip) "\<not> keep ! j"
      | (drop_j) "keep ! j" "center_dist (cs ! i) (cs ! j) < t" "?cj \<le> ?ci"
      | (drop_i) "keep ! j" "center_dist (cs ! i) (cs ! j) < t" "\<not> ?cj \<le> ?ci"
      | (far) "keep ! j" "\<not> center_dist (cs ! i) (cs ! j) < t"
      by blast
    then show ?thesis
    proof cases
      case skip
      then show ?thesis
        using "1.IH"(1)[OF jlt skip] "1.prems" jlt by (subst dedup_inner.simps) simp
    next
      case drop_j
      have "removal_cause ps cs t i j"
        using drop_j "1.prems"(1) by (simp add: removal_cause_def)
      then have "removals_caused ps cs t (keep[j := False])"
        using removals_caused_update "1.prems"(3) ilt(1) by blast
      then show ?thesis
        using "1.IH"(2)[OF jlt _ drop_j(2) drop_j(3)] drop_j "1.prems" jlt
        by (subst dedup_inner.simps) simp
    next
      case drop_i
      have "removal_cause ps cs t j i"
        using drop_i "1.prems"(1) by (simp add: removal_cause_def center_dist_sym[of "cs ! j"])
      then have "removals_caused ps cs t (keep[i := False])"
        using removals_caused_update "1.prems"(3) ilt(2) by blast
      then show ?thesis
        using drop_i jlt by (subst dedup_inner.simps) simp
    next
      case far
      then show ?thesis
        using "1.IH"(3)[OF jlt _ far(2)] "1.prems" jlt by (subst dedup_inner.simps) simp
    qed
  qed
qed

lemma dedup_outer_caused:
  "length keep = length ps \<Longrightarrow> removals_caused ps cs t keep \<Longrightarrow>
   removals_caused ps cs t (dedup_outer ps cs t i keep)"
proof (induction ps cs t i keep rule: dedup_outer.induct)
  case (1 ps cs t i keep)
  show ?case
  proof (cases "i < length ps")
    case False
    then show ?thesis using "1.prems" by (subst dedup_outer.simps) simp
  next
    case ilt: True
    show ?thesis
    proof (cases "keep ! i")
      case False
      then show ?thesis
        using "1.IH"(1)[OF ilt False] "1.prems" ilt by (subst dedup_outer.simps) simp
    next
      case True
      have "removals_caused ps cs t (dedup_inner ps cs t i (i + 1) keep)"
        using dedup_inner_caused[of i "i + 1"] "1.prems" by simp
      then show ?thesis
        using "1.IH"(2)[OF ilt] True "1.prems" ilt
        by (subst dedup_outer.simps) (simp add: dedup_inner_length)
    qed
  qed
qed

text \<open>A list of flags whose kept entries are already pairwise separated is not changed.\<close>

lemma dedup_inner_fixed:
  "i < j \<Longrightarrow> keep ! i \<Longrightarrow> length keep = length ps \<Longrightarrow>
   separated_below cs t (length ps) keep \<Longrightarrow> dedup_inner ps cs t i j keep = keep"
proof (induction ps cs t i j keep rule: dedup_inner.induct)
  case (1 ps cs t i j keep)
  show ?case
  proof (cases "j < length ps")
    case False
    then show ?thesis by (subst dedup_inner.simps) simp
  next
    case jlt: True
    show ?thesis
    proof (cases "keep ! j")
      case False
      then show ?thesis
        using "1.IH"(1)[OF jlt False] "1.prems" jlt by (subst dedup_inner.simps) simp
    next
      case True
      have far: "\<not> center_dist (cs ! i) (cs ! j) < t"
        using "1.prems" True jlt unfolding separated_below_def by simp
      then show ?thesis
        using "1.IH"(3)[OF jlt _ far] True "1.prems" jlt by (subst dedup_inner.simps) simp
    qed
  qed
qed

lemma dedup_outer_fixed:
  "length keep = length ps \<Longrightarrow> separated_below cs t (length ps) keep \<Longrightarrow>
   dedup_outer ps cs t i keep = keep"
proof (induction ps cs t i keep rule: dedup_outer.induct)
  case (1 ps cs t i keep)
  show ?case
  proof (cases "i < length ps")
    case False
    then show ?thesis by (subst dedup_outer.simps) simp
  next
    case ilt: True
    show ?thesis
    proof (cases "keep ! i")
      case False
      then show ?thesis
        using "1.IH"(1)[OF ilt False] "1.prems" ilt by (subst dedup_outer.simps) simp
    next
      case True
      have "dedup_inner ps cs t i (i + 1) keep = keep"
        using dedup_inner_fixed[of i "i + 1"] True "1.prems" by simp
      then show ?thesis
        using "1.IH"(2)[OF ilt] True "1.prems" ilt by (subst dedup_outer.simps) simp
    qed
  qed
qed

lemma kept_selection:
  assumes "length ks = length xs"
  shows "map fst (filter snd (zip xs ks)) = map ((!) xs) (filter ((!) ks) [0..<length xs])"
proof -
  have "zip xs ks = map (\<lambda>i. (xs ! i, ks ! i)) [0..<length xs]"
    using assms by (intro nth_equalityI) simp_all
  then show ?thesis by (simp add: filter_map comp_def)
qed

lemma dedup_keep_length: "length (dedup_keep ps t) = length ps"
  by (simp add: dedup_keep_def dedup_outer_length)

lemma dedup_keep_separated:
  "separated_below (map pred_center ps) t (length ps) (dedup_keep ps t)"
  unfolding dedup_keep_def
  by (rule dedup_outer_separates) (simp_all add: separated_below_def)

lemma dedup_keep_caused:
  "removals_caused ps (map pred_center ps) t (dedup_keep ps t)"
  unfolding dedup_keep_def
  by (rule dedup_outer_caused) (simp_all add: removals_caused_def)

lemma dedup_as_selection:
  "deduplicate_predictions ps t =
     map ((!) (nonempty_points ps))
       (filter ((!) (dedup_keep (nonempty_points ps) t)) [0..<length (nonempty_points ps)])"
proof (cases "ps = []")
  case True
  then show ?thesis by (simp add: deduplicate_predictions_def nonempty_points_def)
next
  case False
  then show ?thesis
    by (simp add: deduplicate_predictions_def Let_def kept_selection dedup_keep_length)
qed

lemma dedup_subset: "set (deduplicate_predictions ps t) \<subseteq> set (nonempty_points ps)"
  by (auto simp: dedup_as_selection)

lemma dedup_sorted_wrt:
  "sorted_wrt (\<lambda>p q. t \<le> center_dist (pred_center p) (pred_center q))
     (deduplicate_predictions ps t)"
proof -
  let ?fs = "nonempty_points ps"
  let ?keep = "dedup_keep ?fs t"
  let ?idx = "filter ((!) ?keep) [0..<length ?fs]"
  have "sorted_wrt (<) ?idx" by (rule sorted_wrt_filter) simp
  moreover have "t \<le> center_dist (pred_center (?fs ! a)) (pred_center (?fs ! b))"
    if "a \<in> set ?idx" "b \<in> set ?idx" "a < b" for a b
    using that dedup_keep_separated[of ?fs t]
    by (auto simp: separated_below_def dedup_keep_length not_less)
  ultimately have "sorted_wrt (\<lambda>a b. t \<le> center_dist (pred_center (?fs ! a)) (pred_center (?fs ! b))) ?idx"
    by (rule sorted_wrt_mono_rel[rotated])
  then show ?thesis by (simp add: dedup_as_selection sorted_wrt_map)
qed

lemma near_boxes:
  "center_dist (pred_center (box_detection x y c)) (pred_center (box_detection x' y' c')) < t
     \<longleftrightarrow> 0 < t \<and> (x - x')\<^sup>2 + (y - y')\<^sup>2 < t\<^sup>2"
  by (simp add: center_dist_less_iff pred_center_def box_detection_def get_or_def)

lemma conf_box: "get_or (p_confidence (box_detection x y c)) 0 = c"
  by (simp add: box_detection_def get_or_def)

lemma points_box: "p_points (box_detection x y c) = None"
  by (simp add: box_detection_def)

lemma chain_nonempty: "nonempty_points chain_example = chain_example"
  by (simp add: nonempty_points_def chain_example_def points_box)

lemma chain_keep: "dedup_keep chain_example 20 = [True, False, True]"
  by (simp add: dedup_keep_def chain_example_def dedup_outer.simps dedup_inner.simps
        near_boxes conf_box)

lemma chain_dedup:
  "deduplicate_predictions chain_example 20 =
     [box_detection 0 0 (9 / 10), box_detection 30 0 (3 / 10)]"
proof -
  have "chain_example \<noteq> []" by (simp add: chain_example_def)
  then have "deduplicate_predictions chain_example 20 =
      map fst (filter snd (zip chain_example [True, False, True]))"
    by (simp add: deduplicate_predictions_def Let_def chain_nonempty chain_keep)
  then show ?thesis by (simp add: chain_example_def)
qed

text \<open>
  C10: whatever the input list and the threshold, two detections at different positions of
  the output of \<^verbatim>\<open>deduplicate_predictions\<close> have centers at least the threshold apart.
\<close>

theorem survivors_pairwise_separated:
  "i < j \<Longrightarrow> j < length (deduplicate_predictions ps t) \<Longrightarrow>
   t \<le> center_dist (pred_center (deduplicate_predictions ps t ! i))
         (pred_center (deduplicate_predictions ps t ! j))"
  using dedup_sorted_wrt[of t ps] by (simp add: sorted_wrt_iff_nth_less)

theorem survivors_pairwise_separated_witness:
  "(0::nat) < 1 \<and> 1 < length (deduplicate_predictions chain_example 20) \<and>
   20 \<le> center_dist (pred_center (deduplicate_predictions chain_example 20 ! 0))
          (pred_center (deduplicate_predictions chain_example 20 ! 1))"
proof -
  have len: "1 < length (deduplicate_predictions chain_example 20)"
    by (simp add: chain_dedup)
  show ?thesis
    using survivors_pairwise_separated[of 0 1 chain_example 20] len by simp
qed

text \<open>
  C4: deduplication is idempotent. Running \<^verbatim>\<open>deduplicate_predictions\<close> on its own output,
  with the same threshold, returns that output.
\<close>

theorem dedup_idempotent:
  "deduplicate_predictions (deduplicate_predictions ps t) t = deduplicate_predictions ps t"
proof -
  let ?out = "deduplicate_predictions ps t"
  have ne: "nonempty_points ?out = ?out"
    using dedup_subset[of ps t] by (auto simp: nonempty_points_def filter_id_conv)
  have "separated_below (map pred_center ?out) t (length ?out) (replicate (length ?out) True)"
    using dedup_sorted_wrt[of t ps]
    by (fastforce simp: separated_below_def sorted_wrt_iff_nth_less not_less[symmetric])
  then have "dedup_keep ?out t = replicate (length ?out) True"
    unfolding dedup_keep_def by (intro dedup_outer_fixed) simp_all
  then have "map fst (filter snd (zip ?out (dedup_keep ?out t))) = ?out"
    by (simp add: kept_selection filter_id_conv map_nth)
  then show ?thesis
    by (simp add: deduplicate_predictions_def[of ?out] ne Let_def)
qed

text \<open>Two consequences of the marking: close pairs lose a member, and every marked
  detection has a close partner that beats it.\<close>

lemma dedup_close_pairs:
  "(let fs = nonempty_points ps; keep = dedup_keep fs t
    in length keep = length fs \<and>
       deduplicate_predictions ps t = map ((!) fs) (filter ((!) keep) [0..<length fs]) \<and>
       (\<forall>i j. i < j \<and> j < length fs \<and>
              center_dist (pred_center (fs ! i)) (pred_center (fs ! j)) < t
              \<longrightarrow> \<not> keep ! i \<or> \<not> keep ! j) \<and>
       (\<forall>b. b < length fs \<and> \<not> keep ! b \<longrightarrow>
            (\<exists>a. a < length fs \<and> a \<noteq> b \<and>
                 center_dist (pred_center (fs ! a)) (pred_center (fs ! b)) < t \<and>
                 (a < b \<and> get_or (p_confidence (fs ! b)) 0 \<le> get_or (p_confidence (fs ! a)) 0
                  \<or> b < a \<and> get_or (p_confidence (fs ! b)) 0 < get_or (p_confidence (fs ! a)) 0))))"
proof -
  let ?fs = "nonempty_points ps"
  let ?keep = "dedup_keep ?fs t"
  have len: "length ?keep = length ?fs" by (rule dedup_keep_length)
  have sel: "deduplicate_predictions ps t = map ((!) ?fs) (filter ((!) ?keep) [0..<length ?fs])"
    by (rule dedup_as_selection)
  have sep: "\<not> ?keep ! i \<or> \<not> ?keep ! j"
    if "i < j \<and> j < length ?fs \<and> center_dist (pred_center (?fs ! i)) (pred_center (?fs ! j)) < t"
    for i j
    using that dedup_keep_separated[of ?fs t] len
    by (auto simp: separated_below_def)
  have cause: "\<exists>a. a < length ?fs \<and> a \<noteq> b \<and>
                 center_dist (pred_center (?fs ! a)) (pred_center (?fs ! b)) < t \<and>
                 (a < b \<and> get_or (p_confidence (?fs ! b)) 0 \<le> get_or (p_confidence (?fs ! a)) 0
                  \<or> b < a \<and> get_or (p_confidence (?fs ! b)) 0 < get_or (p_confidence (?fs ! a)) 0)"
    if hb: "b < length ?fs \<and> \<not> ?keep ! b" for b
  proof -
    obtain a where a: "a < length ?fs" "removal_cause ?fs (map pred_center ?fs) t a b"
      using hb dedup_keep_caused[of ?fs t] len unfolding removals_caused_def by auto
    then show ?thesis using hb unfolding removal_cause_def by (intro exI[of _ a]) simp
  qed
  show ?thesis unfolding Let_def using len sel sep cause by blast
qed

text \<open>The two loops, with their \<^verbatim>\<open>continue\<close> and \<^verbatim>\<open>break\<close>, do what visiting the pairs
  one by one does.\<close>

lemma visit_marked_row:
  "\<not> keep ! i \<Longrightarrow> foldl (visit_pair fs t) keep (map (\<lambda>j. (i, j)) js) = keep"
  by (induction js) (simp_all add: visit_pair_def)

lemma dedup_inner_visits:
  "i < j \<Longrightarrow> keep ! i \<Longrightarrow> length keep = length ps \<Longrightarrow>
   dedup_inner ps (map pred_center ps) t i j keep =
     foldl (visit_pair ps t) keep (map (\<lambda>j. (i, j)) [j..<length ps])"
proof (induction ps "map pred_center ps" t i j keep rule: dedup_inner.induct)
  case (1 ps t i j keep)
  let ?cs = "map pred_center ps"
  show ?case
  proof (cases "j < length ps")
    case False
    then show ?thesis by (subst dedup_inner.simps) simp
  next
    case jlt: True
    then have ilt: "i < length ps" using "1.prems" by simp
    have row: "[j..<length ps] = j # [j + 1..<length ps]"
      using jlt by (simp add: upt_conv_Cons)
    have near: "center_dist (?cs ! i) (?cs ! j) < t \<longleftrightarrow>
        center_dist (pred_center (ps ! i)) (pred_center (ps ! j)) < t"
      using jlt ilt by simp
    consider (skip) "\<not> keep ! j"
      | (drop_j) "keep ! j" "center_dist (?cs ! i) (?cs ! j) < t"
          "get_or (p_confidence (ps ! j)) 0 \<le> get_or (p_confidence (ps ! i)) 0"
      | (drop_i) "keep ! j" "center_dist (?cs ! i) (?cs ! j) < t"
          "\<not> get_or (p_confidence (ps ! j)) 0 \<le> get_or (p_confidence (ps ! i)) 0"
      | (far) "keep ! j" "\<not> center_dist (?cs ! i) (?cs ! j) < t"
      by blast
    then show ?thesis
    proof cases
      case skip
      have "dedup_inner ps ?cs t i j keep = dedup_inner ps ?cs t i (j + 1) keep"
        using jlt skip by (subst dedup_inner.simps) simp
      also have "\<dots> = foldl (visit_pair ps t) keep (map (\<lambda>j. (i, j)) [j + 1..<length ps])"
        using "1.hyps"(1)[OF jlt skip] "1.prems" by simp
      also have "\<dots> = foldl (visit_pair ps t) keep (map (\<lambda>j. (i, j)) [j..<length ps])"
        unfolding row using skip by (simp add: visit_pair_def)
      finally show ?thesis .
    next
      case drop_j
      have ki: "keep[j := False] ! i" using "1.prems" by simp
      have "dedup_inner ps ?cs t i j keep = dedup_inner ps ?cs t i (j + 1) (keep[j := False])"
        using jlt drop_j by (subst dedup_inner.simps) simp
      also have "\<dots> = foldl (visit_pair ps t) (keep[j := False])
          (map (\<lambda>j. (i, j)) [j + 1..<length ps])"
        using "1.hyps"(2)[OF jlt _ drop_j(2) drop_j(3)] drop_j(1) ki "1.prems" by simp
      also have "\<dots> = foldl (visit_pair ps t) keep (map (\<lambda>j. (i, j)) [j..<length ps])"
        unfolding row using drop_j "1.prems"(2) near by (simp add: visit_pair_def)
      finally show ?thesis .
    next
      case drop_i
      have ki: "\<not> keep[i := False] ! i" using ilt "1.prems" by simp
      have "dedup_inner ps ?cs t i j keep = keep[i := False]"
        using jlt drop_i by (subst dedup_inner.simps) simp
      also have "\<dots> = foldl (visit_pair ps t) (keep[i := False])
          (map (\<lambda>j. (i, j)) [j + 1..<length ps])"
        using visit_marked_row[OF ki] by simp
      also have "\<dots> = foldl (visit_pair ps t) keep (map (\<lambda>j. (i, j)) [j..<length ps])"
        unfolding row using drop_i "1.prems"(2) near by (simp add: visit_pair_def)
      finally show ?thesis .
    next
      case far
      have "dedup_inner ps ?cs t i j keep = dedup_inner ps ?cs t i (j + 1) keep"
        using jlt far by (subst dedup_inner.simps) simp
      also have "\<dots> = foldl (visit_pair ps t) keep (map (\<lambda>j. (i, j)) [j + 1..<length ps])"
        using "1.hyps"(3)[OF jlt _ far(2)] far(1) "1.prems" by simp
      also have "\<dots> = foldl (visit_pair ps t) keep (map (\<lambda>j. (i, j)) [j..<length ps])"
        unfolding row using far near by (simp add: visit_pair_def)
      finally show ?thesis .
    qed
  qed
qed

lemma dedup_outer_visits:
  "length keep = length ps \<Longrightarrow>
   dedup_outer ps (map pred_center ps) t i keep =
     foldl (visit_pair ps t) keep
       (concat (map (\<lambda>i. map (\<lambda>j. (i, j)) [i + 1..<length ps]) [i..<length ps]))"
proof (induction ps "map pred_center ps" t i keep rule: dedup_outer.induct)
  case (1 ps t i keep)
  let ?cs = "map pred_center ps"
  let ?row = "\<lambda>i. map (\<lambda>j. (i, j)) [i + 1..<length ps]"
  show ?case
  proof (cases "i < length ps")
    case False
    then show ?thesis by (subst dedup_outer.simps) simp
  next
    case ilt: True
    have rows: "concat (map ?row [i..<length ps]) = ?row i @ concat (map ?row [i + 1..<length ps])"
      using ilt by (simp add: upt_conv_Cons)
    show ?thesis
    proof (cases "keep ! i")
      case False
      have "dedup_outer ps ?cs t i keep = dedup_outer ps ?cs t (i + 1) keep"
        using ilt False by (subst dedup_outer.simps) simp
      also have "\<dots> = foldl (visit_pair ps t) keep (concat (map ?row [i + 1..<length ps]))"
        using "1.hyps"(1)[OF ilt False] "1.prems" by simp
      also have "\<dots> = foldl (visit_pair ps t) keep (concat (map ?row [i..<length ps]))"
        unfolding rows foldl_append using visit_marked_row[OF False] by simp
      finally show ?thesis .
    next
      case True
      let ?k = "dedup_inner ps ?cs t i (i + 1) keep"
      have inner: "?k = foldl (visit_pair ps t) keep (?row i)"
        using dedup_inner_visits[of i "i + 1" keep ps t] True "1.prems" by simp
      have "dedup_outer ps ?cs t i keep = dedup_outer ps ?cs t (i + 1) ?k"
        using ilt True by (subst dedup_outer.simps) simp
      also have "\<dots> = foldl (visit_pair ps t) ?k (concat (map ?row [i + 1..<length ps]))"
        using "1.hyps"(2)[OF ilt] True "1.prems" by (simp add: dedup_inner_length)
      also have "\<dots> = foldl (visit_pair ps t) keep (concat (map ?row [i..<length ps]))"
        unfolding rows foldl_append inner by simp
      finally show ?thesis .
    qed
  qed
qed

lemma dedup_keep_visits:
  "dedup_keep ps t =
     foldl (visit_pair ps t) (replicate (length ps) True) (index_pairs (length ps))"
  unfolding dedup_keep_def index_pairs_def by (rule dedup_outer_visits) simp

lemma index_pairs_3: "index_pairs 3 = [(0, 1), (0, 2), (1, 2)]"
  by (simp add: index_pairs_def upt_rec numeral_3_eq_3)

lemma index_pairs_set: "set (index_pairs n) = {(i, j). i < j \<and> j < n}"
  by (fastforce simp: index_pairs_def)

lemma rows_in_order:
  "sorted_wrt (<) rows \<Longrightarrow>
   sorted_wrt pair_before (concat (map (\<lambda>i. map (\<lambda>j. (i, j)) [i + 1..<n]) rows))"
proof (induction rows)
  case Nil
  then show ?case by simp
next
  case (Cons a rows)
  have "sorted_wrt pair_before (map (\<lambda>j. (a, j)) [a + 1..<n])"
    by (simp add: sorted_wrt_map pair_before_def)
  moreover have "sorted_wrt pair_before (concat (map (\<lambda>i. map (\<lambda>j. (i, j)) [i + 1..<n]) rows))"
    using Cons by simp
  moreover have "pair_before p q"
    if "p \<in> set (map (\<lambda>j. (a, j)) [a + 1..<n])"
      "q \<in> set (concat (map (\<lambda>i. map (\<lambda>j. (i, j)) [i + 1..<n]) rows))" for p q
    using that Cons.prems by (auto simp: pair_before_def)
  ultimately show ?case by (simp add: sorted_wrt_append)
qed

lemma index_pairs_in_order: "sorted_wrt pair_before (index_pairs n)"
  unfolding index_pairs_def by (rule rows_in_order) simp

lemma break_nonempty: "nonempty_points break_example = break_example"
  by (simp add: nonempty_points_def break_example_def points_box)

lemma three_flags: "replicate 3 True = [True, True, True]"
  by (simp add: numeral_3_eq_3)

lemma three_indices: "[0..<3] = [0, 1, 2]"
  by (simp add: upt_rec numeral_3_eq_3)

lemma visits_chain:
  "foldl (visit_pair chain_example 20) (replicate 3 True) (index_pairs 3) = [True, False, True]"
  by (simp add: index_pairs_3 three_flags visit_pair_def chain_example_def near_boxes conf_box)

lemma visits_break:
  "foldl (visit_pair break_example 20) (replicate 3 True) (index_pairs 3) = [False, False, True]"
  by (simp add: index_pairs_3 three_flags visit_pair_def break_example_def near_boxes conf_box)

text \<open>
  C3, as the code has it. Let \<open>fs\<close> be the input without the detections whose point list is
  empty, \<open>n\<close> its length and \<open>keep\<close> the flags when the loops are done. The loops visit the
  pairs \<open>(i, j)\<close> with \<open>i < j < n\<close>, each once, by rising \<open>i\<close> and for one \<open>i\<close> by rising
  \<open>j\<close>. A pair that is reached while both of its detections are still unmarked and whose
  centers are closer than the threshold gets its lower-confidence detection marked, and
  \<open>j\<close> when the confidences are equal; a pair with a member that is already marked marks
  nothing. The output is the list of the \<open>fs ! a\<close> with \<open>keep ! a\<close>, in index order.
\<close>

theorem dedup_marks:
  "(let fs = nonempty_points ps; n = length fs; keep = dedup_keep fs t
    in set (index_pairs n) = {(i, j). i < j \<and> j < n} \<and>
       sorted_wrt pair_before (index_pairs n) \<and>
       keep = foldl (visit_pair fs t) (replicate n True) (index_pairs n) \<and>
       length keep = n \<and>
       deduplicate_predictions ps t = map ((!) fs) (filter ((!) keep) [0..<n]))"
  unfolding Let_def
proof (intro conjI)
  show "set (index_pairs (length (nonempty_points ps))) =
      {(i, j). i < j \<and> j < length (nonempty_points ps)}"
    by (rule index_pairs_set)
  show "sorted_wrt pair_before (index_pairs (length (nonempty_points ps)))"
    by (rule index_pairs_in_order)
  show "dedup_keep (nonempty_points ps) t =
      foldl (visit_pair (nonempty_points ps) t)
        (replicate (length (nonempty_points ps)) True)
        (index_pairs (length (nonempty_points ps)))"
    by (rule dedup_keep_visits)
  show "length (dedup_keep (nonempty_points ps) t) = length (nonempty_points ps)"
    by (rule dedup_keep_length)
  show "deduplicate_predictions ps t =
      map ((!) (nonempty_points ps))
        (filter ((!) (dedup_keep (nonempty_points ps) t)) [0..<length (nonempty_points ps)])"
    by (rule dedup_as_selection)
qed

theorem dedup_marks_witness:
  "dedup_keep (nonempty_points chain_example) 20 = [True, False, True] \<and>
   deduplicate_predictions chain_example 20 =
     [box_detection 0 0 (9 / 10), box_detection 30 0 (3 / 10)] \<and>
   dedup_keep (nonempty_points break_example) 20 = [False, False, True] \<and>
   deduplicate_predictions break_example 20 = [box_detection 15 0 (9 / 10)]"
proof -
  have len: "length chain_example = 3" "length break_example = 3"
    by (simp_all add: chain_example_def break_example_def)
  note c = dedup_marks[of chain_example 20, unfolded Let_def]
  note b = dedup_marks[of break_example 20, unfolded Let_def]
  have kc: "dedup_keep (nonempty_points chain_example) 20 = [True, False, True]"
    using c[THEN conjunct2, THEN conjunct2, THEN conjunct1]
    by (simp only: chain_nonempty len visits_chain)
  have kb: "dedup_keep (nonempty_points break_example) 20 = [False, False, True]"
    using b[THEN conjunct2, THEN conjunct2, THEN conjunct1]
    by (simp only: break_nonempty len visits_break)
  have "deduplicate_predictions chain_example 20 =
      map ((!) chain_example) (filter ((!) [True, False, True]) [0, 1, 2])"
    using c[THEN conjunct2, THEN conjunct2, THEN conjunct2, THEN conjunct2]
    by (simp only: kc[unfolded chain_nonempty] chain_nonempty len three_indices)
  then have oc: "deduplicate_predictions chain_example 20 =
      [box_detection 0 0 (9 / 10), box_detection 30 0 (3 / 10)]"
    by (simp add: chain_example_def)
  have "deduplicate_predictions break_example 20 =
      map ((!) break_example) (filter ((!) [False, False, True]) [0, 1, 2])"
    using b[THEN conjunct2, THEN conjunct2, THEN conjunct2, THEN conjunct2]
    by (simp only: kb[unfolded break_nonempty] break_nonempty len three_indices)
  then have ob: "deduplicate_predictions break_example 20 = [box_detection 15 0 (9 / 10)]"
    by (simp add: break_example_def)
  from kc oc kb ob show ?thesis by (intro conjI)
qed

theorem dedup_pairwise_rule_counterexample:
  "center_dist (pred_center (chain_example ! 1)) (pred_center (chain_example ! 2)) < 20 \<and>
   get_or (p_confidence (chain_example ! 2)) 0 < get_or (p_confidence (chain_example ! 1)) 0 \<and>
   dedup_keep (nonempty_points chain_example) 20 ! 2 \<and>
   chain_example ! 2 \<in> set (deduplicate_predictions chain_example 20)"
proof -
  have "center_dist (pred_center (chain_example ! 1)) (pred_center (chain_example ! 2)) < 20"
    by (simp add: chain_example_def near_boxes)
  moreover have "get_or (p_confidence (chain_example ! 2)) 0
      < get_or (p_confidence (chain_example ! 1)) 0"
    by (simp add: chain_example_def conf_box)
  moreover have "dedup_keep (nonempty_points chain_example) 20 ! 2"
    by (simp add: chain_nonempty chain_keep)
  moreover have "chain_example ! 2 \<in> set (deduplicate_predictions chain_example 20)"
    by (simp add: chain_dedup) (simp add: chain_example_def)
  ultimately show ?thesis by blast
qed

section \<open>Properties of the detection client\<close>

lemma call_api_two_retries:
  assumes "500 \<le> status_code (svc 0)" "500 \<le> status_code (svc 1)"
  shows "call_api svc 3 =
     call_api_loop svc 3 2 \<lparr>requests = 2, sleeps = [1, 2]\<rparr>"
  using assms by (simp add: call_api_def Let_def numeral_2_eq_2)

lemma call_api_last_attempt:
  "call_api_loop svc 3 2 lg =
     (if status_code (svc 2) = 200
      then (parse_predictions (svc 2), lg\<lparr>requests := requests lg + 1\<rparr>)
      else (Inl (ApiError (status_code (svc 2)) (text_of (svc 2))),
            lg\<lparr>requests := requests lg + 1\<rparr>))"
  by (simp add: Let_def)

lemma call_api_all_5xx:
  assumes "500 \<le> status_code (svc 0)" "500 \<le> status_code (svc 1)" "500 \<le> status_code (svc 2)"
  shows "call_api svc 3 =
     (Inl (ApiError (status_code (svc 2)) (text_of (svc 2))), \<lparr>requests = 3, sleeps = [1, 2]\<rparr>)"
  using assms by (simp add: call_api_two_retries call_api_last_attempt del: call_api_loop.simps)

text \<open>The \<^verbatim>\<open>return []\<close> after the loop is reached only when the loop body never runs.\<close>

lemma call_api_no_attempts:
  "max_retries \<le> 0 \<Longrightarrow> call_api svc max_retries = (Inr [], \<lparr>requests = 0, sleeps = []\<rparr>)"
  by (simp add: call_api_def)

lemma collect_tiles_error:
  "(row, col) \<in> set cells \<Longrightarrow> fst (call_api (svc row col) 3) = Inl e \<Longrightarrow>
   \<exists>e'. collect_tiles svc width height cells = Inl e'"
proof (induction cells)
  case Nil
  then show ?case by simp
next
  case (Cons cell cells)
  obtain r c where cell: "cell = (r, c)" by (cases cell)
  show ?case
  proof (cases "(row, col) = (r, c)")
    case True
    then show ?thesis using Cons.prems cell by (simp split: prod.splits)
  next
    case False
    then obtain e' where "collect_tiles svc width height cells = Inl e'"
      using Cons cell by auto
    then show ?thesis using cell by (simp split: prod.splits sum.splits)
  qed
qed

text \<open>
  C1, as the code has it. When all three attempts for a tile receive a 5xx status, the client
  sleeps 1 and 2 seconds between them and then raises the API error of the third response;
  it returns no list, and \<^verbatim>\<open>detect_holds\<close> ends with an error instead of a list of holds.
\<close>

theorem call_api_exhausted_raises:
  assumes "500 \<le> status_code (svc row col 0)"
    and "500 \<le> status_code (svc row col 1)"
    and "500 \<le> status_code (svc row col 2)"
    and "(row, col) \<in> set grid"
  shows "call_api (svc row col) 3 =
           (Inl (ApiError (status_code (svc row col 2)) (text_of (svc row col 2))),
            \<lparr>requests = 3, sleeps = [1, 2]\<rparr>) \<and>
         (\<exists>e. detect_holds svc sample width height confidence = Inl e)"
proof -
  have api: "call_api (svc row col) 3 =
           (Inl (ApiError (status_code (svc row col 2)) (text_of (svc row col 2))),
            \<lparr>requests = 3, sleeps = [1, 2]\<rparr>)"
    using assms(1-3) by (rule call_api_all_5xx)
  then obtain e where "collect_tiles svc width height grid = Inl e"
    using collect_tiles_error[OF assms(4), of svc _ width height] by (metis fst_conv)
  then show ?thesis using api by (simp add: detect_holds_def)
qed

lemma grid_cells: "grid = [(0,0), (0,1), (0,2), (1,0), (1,1), (1,2), (2,0), (2,1), (2,2)]"
  by (simp add: grid_def tile_cols_def tile_rows_def upt_rec[of _ 3] numeral_3_eq_3)

theorem call_api_exhausted_raises_witness:
  "500 \<le> status_code (outage 0 0 0) \<and> 500 \<le> status_code (outage 0 0 1) \<and>
   500 \<le> status_code (outage 0 0 2) \<and> (0, 0) \<in> set grid \<and>
   call_api (outage 0 0) 3 =
     (Inl (ApiError 503 ''Service Unavailable''), \<lparr>requests = 3, sleeps = [1, 2]\<rparr>) \<and>
   (\<exists>e. detect_holds outage gray_sample 300 300 (1 / 2) = Inl e)"
proof -
  have s: "500 \<le> status_code (outage 0 0 0)" "500 \<le> status_code (outage 0 0 1)"
    "500 \<le> status_code (outage 0 0 2)"
    by (simp_all add: outage_def always_503_def)
  have g: "(0, 0) \<in> set grid" by (simp add: grid_cells)
  have r: "status_code (outage 0 0 2) = 503" "text_of (outage 0 0 2) = ''Service Unavailable''"
    by (simp_all add: outage_def always_503_def)
  from call_api_exhausted_raises[of outage 0 0 gray_sample 300 300 "1 / 2"] s g r
  show ?thesis by simp
qed

theorem call_api_exhausted_counterexample:
  "500 \<le> status_code (always_503 0) \<and> status_code (always_503 0) < 600 \<and>
   500 \<le> status_code (always_503 1) \<and> status_code (always_503 1) < 600 \<and>
   500 \<le> status_code (always_503 2) \<and> status_code (always_503 2) < 600 \<and>
   fst (call_api always_503 3) = Inl (ApiError 503 ''Service Unavailable'') \<and>
   fst (call_api always_503 3) \<noteq> Inr []"
  by (simp add: call_api_all_5xx always_503_def del: call_api_loop.simps)

text \<open>
  C2: with three attempts, a service answering 503, 503 and then 200 with a JSON object makes
  the client return that object's predictions (the empty list when it has none) after
  sleeping 1 and then 2 seconds, with three requests sent; a first answer below 500 that is
  not a 2xx status makes it raise the API error at once, with one request and no sleep.
\<close>

theorem call_api_retry_then_success_or_fail_fast:
  "(status_code (svc 0) = 503 \<and> status_code (svc 1) = 503 \<and> status_code (svc 2) = 200 \<and>
      json_of (svc 2) = JsonObject found
    \<longrightarrow> call_api svc 3 = (Inr (get_or found []), \<lparr>requests = 3, sleeps = [1, 2]\<rparr>)) \<and>
   (status_code (svc 0) < 500 \<and> \<not> (200 \<le> status_code (svc 0) \<and> status_code (svc 0) < 300)
    \<longrightarrow> call_api svc 3 =
          (Inl (ApiError (status_code (svc 0)) (text_of (svc 0))), \<lparr>requests = 1, sleeps = []\<rparr>))"
proof (intro conjI impI)
  assume a: "status_code (svc 0) = 503 \<and> status_code (svc 1) = 503 \<and>
    status_code (svc 2) = 200 \<and> json_of (svc 2) = JsonObject found"
  then have "call_api svc 3 = call_api_loop svc 3 2 \<lparr>requests = 2, sleeps = [1, 2]\<rparr>"
    by (intro call_api_two_retries) simp_all
  moreover have "parse_predictions (svc 2) = Inr (get_or found [])"
    using a by (simp add: parse_predictions_def get_or_def split: option.splits)
  ultimately show "call_api svc 3 = (Inr (get_or found []), \<lparr>requests = 3, sleeps = [1, 2]\<rparr>)"
    using a by (simp add: call_api_last_attempt del: call_api_loop.simps)
next
  assume "status_code (svc 0) < 500 \<and> \<not> (200 \<le> status_code (svc 0) \<and> status_code (svc 0) < 300)"
  then show "call_api svc 3 =
          (Inl (ApiError (status_code (svc 0)) (text_of (svc 0))), \<lparr>requests = 1, sleeps = []\<rparr>)"
    by (auto simp: call_api_def Let_def)
qed

theorem call_api_retry_then_success_or_fail_fast_witness:
  "status_code (recovering 0) = 503 \<and> status_code (recovering 1) = 503 \<and>
   status_code (recovering 2) = 200 \<and>
   json_of (recovering 2) = JsonObject (Some [box_detection 40 50 (9 / 10)]) \<and>
   call_api recovering 3 =
     (Inr [box_detection 40 50 (9 / 10)], \<lparr>requests = 3, sleeps = [1, 2]\<rparr>) \<and>
   status_code (not_found 0) < 500 \<and>
   \<not> (200 \<le> status_code (not_found 0) \<and> status_code (not_found 0) < 300) \<and>
   call_api not_found 3 = (Inl (ApiError 404 ''Not Found''), \<lparr>requests = 1, sleeps = []\<rparr>)"
proof -
  have r: "status_code (recovering 0) = 503 \<and> status_code (recovering 1) = 503 \<and>
      status_code (recovering 2) = 200 \<and>
      json_of (recovering 2) = JsonObject (Some [box_detection 40 50 (9 / 10)])"
    by (simp add: recovering_def always_503_def)
  have n: "status_code (not_found 0) < 500 \<and>
      \<not> (200 \<le> status_code (not_found 0) \<and> status_code (not_found 0) < 300)"
    by (simp add: not_found_def)
  have t: "text_of (not_found 0) = ''Not Found''" "status_code (not_found 0) = 404"
    by (simp_all add: not_found_def)
  from call_api_retry_then_success_or_fail_fast[of recovering "Some [box_detection 40 50 (9 / 10)]"]
    call_api_retry_then_success_or_fail_fast[of not_found None] r n t
  show ?thesis by (simp add: get_or_def)
qed

section \<open>Properties of the tiler\<close>

lemma py_int_of_int: "py_int (real_of_int n) = n"
  by (simp add: py_int_def)

lemma tile_bounds_300:
  "tile_bounds 300 300 row col =
     (max 0 (int col * 100 - 30), max 0 (int row * 100 - 30),
      min 300 ((int col + 1) * 100 + 30), min 300 ((int row + 1) * 100 + 30))"
proof -
  have "py_int (real_of_int 100 * overlap) = 30"
    by (simp add: overlap_def py_int_def)
  then show ?thesis
    by (simp add: tile_bounds_def tile_cols_def tile_rows_def Let_def)
qed

lemma tiles_300:
  "tiles 300 300 =
     [(0, 0, 130, 130), (70, 0, 230, 130), (170, 0, 300, 130),
      (0, 70, 130, 230), (70, 70, 230, 230), (170, 70, 300, 230),
      (0, 170, 130, 300), (70, 170, 230, 300), (170, 170, 300, 300)]"
  by (simp add: tiles_def grid_cells tile_bounds_300)

lemma span_exists:
  assumes "0 \<le> v" "v < 300"
  shows "\<exists>lo hi. (lo, hi) \<in> spans_300 \<and> lo \<le> v \<and> v < hi"
proof -
  consider "v < 130" | "130 \<le> v" "v < 230" | "230 \<le> v" by linarith
  then show ?thesis
  proof cases
    case 1
    then have "(0, 130) \<in> spans_300 \<and> 0 \<le> v \<and> v < 130"
      using assms by (simp add: spans_300_def)
    then show ?thesis by blast
  next
    case 2
    then have "(70, 230) \<in> spans_300 \<and> 70 \<le> v \<and> v < 230"
      by (simp add: spans_300_def)
    then show ?thesis by blast
  next
    case 3
    then have "(170, 300) \<in> spans_300 \<and> 170 \<le> v \<and> v < 300"
      using assms by (simp add: spans_300_def)
    then show ?thesis by blast
  qed
qed

lemma span_tile:
  "(cl, ch) \<in> spans_300 \<Longrightarrow> (rl, rh) \<in> spans_300 \<Longrightarrow> (cl, rl, ch, rh) \<in> set (tiles 300 300)"
  unfolding spans_300_def tiles_300 by auto

lemma one_hit: "t \<in> set ts \<Longrightarrow> P t \<Longrightarrow> 1 \<le> length (filter P ts)"
  by (induction ts) auto

lemma two_hits:
  assumes "distinct ts" "s \<in> set ts" "t \<in> set ts" "s \<noteq> t" "P s" "P t"
  shows "2 \<le> length (filter P ts)"
proof -
  have "{s, t} \<subseteq> set (filter P ts)" using assms by simp
  then have "card {s, t} \<le> card (set (filter P ts))" by (intro card_mono) simp_all
  also have "\<dots> \<le> length (filter P ts)" by (rule card_length)
  finally show ?thesis using assms(4) by simp
qed

lemma covered_once:
  assumes "0 \<le> x" "x < 300" "0 \<le> y" "y < 300"
  shows "1 \<le> length (covering_tiles 300 300 x y)"
proof -
  obtain cl ch where c: "(cl, ch) \<in> spans_300" "cl \<le> x" "x < ch"
    using span_exists[OF assms(1,2)] by blast
  obtain rl rh where r: "(rl, rh) \<in> spans_300" "rl \<le> y" "y < rh"
    using span_exists[OF assms(3,4)] by blast
  have "in_tile (cl, rl, ch, rh) x y" using c r by (simp add: in_tile_def)
  then show ?thesis
    unfolding covering_tiles_def using span_tile[OF c(1) r(1)] by (rule one_hit[rotated])
qed

lemma covered_twice_cols:
  assumes "0 \<le> y" "y < 300" "\<bar>x - 100\<bar> < 30 \<or> \<bar>x - 200\<bar> < 30"
  shows "2 \<le> length (covering_tiles 300 300 x y)"
proof -
  obtain rl rh where r: "(rl, rh) \<in> spans_300" "rl \<le> y" "y < rh"
    using span_exists[OF assms(1,2)] by blast
  obtain cl ch cl' ch' where c: "(cl, ch) \<in> spans_300" "(cl', ch') \<in> spans_300"
      "cl \<noteq> cl'" "cl \<le> x" "x < ch" "cl' \<le> x" "x < ch'"
  proof (cases "\<bar>x - 100\<bar> < 30")
    case True
    then show ?thesis using that[of 0 130 70 230] by (simp add: spans_300_def)
  next
    case False
    then have "\<bar>x - 200\<bar> < 30" using assms(3) by simp
    then show ?thesis using that[of 70 230 170 300] by (simp add: spans_300_def)
  qed
  have "distinct (tiles 300 300)" by (simp add: tiles_300)
  moreover have "(cl, rl, ch, rh) \<in> set (tiles 300 300)" "(cl', rl, ch', rh) \<in> set (tiles 300 300)"
    using span_tile c r by simp_all
  moreover have "(cl, rl, ch, rh) \<noteq> (cl', rl, ch', rh)" using c(3) by simp
  moreover have "in_tile (cl, rl, ch, rh) x y" "in_tile (cl', rl, ch', rh) x y"
    using c r by (simp_all add: in_tile_def)
  ultimately show ?thesis unfolding covering_tiles_def by (rule two_hits)
qed

lemma covered_twice_rows:
  assumes "0 \<le> x" "x < 300" "\<bar>y - 100\<bar> < 30 \<or> \<bar>y - 200\<bar> < 30"
  shows "2 \<le> length (covering_tiles 300 300 x y)"
proof -
  obtain cl ch where c: "(cl, ch) \<in> spans_300" "cl \<le> x" "x < ch"
    using span_exists[OF assms(1,2)] by blast
  obtain rl rh rl' rh' where r: "(rl, rh) \<in> spans_300" "(rl', rh') \<in> spans_300"
      "rl \<noteq> rl'" "rl \<le> y" "y < rh" "rl' \<le> y" "y < rh'"
  proof (cases "\<bar>y - 100\<bar> < 30")
    case True
    then show ?thesis using that[of 0 130 70 230] by (simp add: spans_300_def)
  next
    case False
    then have "\<bar>y - 200\<bar> < 30" using assms(3) by simp
    then show ?thesis using that[of 70 230 170 300] by (simp add: spans_300_def)
  qed
  have "distinct (tiles 300 300)" by (simp add: tiles_300)
  moreover have "(cl, rl, ch, rh) \<in> set (tiles 300 300)" "(cl, rl', ch, rh') \<in> set (tiles 300 300)"
    using span_tile c r by simp_all
  moreover have "(cl, rl, ch, rh) \<noteq> (cl, rl', ch, rh')" using r(3) by simp
  moreover have "in_tile (cl, rl, ch, rh) x y" "in_tile (cl, rl', ch, rh') x y"
    using c r by (simp_all add: in_tile_def)
  ultimately show ?thesis unfolding covering_tiles_def by (rule two_hits)
qed

text \<open>
  C7: for the 300 by 300 image, every pixel \<open>(x, y)\<close> lies in at least one of the nine tiles,
  and a pixel strictly within 30 pixels of one of the lines \<open>x = 100\<close>, \<open>x = 200\<close>,
  \<open>y = 100\<close>, \<open>y = 200\<close> lies in at least two of them.
\<close>

theorem tile_coverage_300:
  assumes "0 \<le> x" "x < 300" "0 \<le> y" "y < 300"
  shows "1 \<le> length (covering_tiles 300 300 x y) \<and>
         (\<bar>x - 100\<bar> < 30 \<or> \<bar>x - 200\<bar> < 30 \<or> \<bar>y - 100\<bar> < 30 \<or> \<bar>y - 200\<bar> < 30
          \<longrightarrow> 2 \<le> length (covering_tiles 300 300 x y))"
  using covered_once[OF assms] covered_twice_cols[OF assms(3,4)] covered_twice_rows[OF assms(1,2)]
  by blast

theorem tile_coverage_300_witness:
  "(0::int) \<le> 110 \<and> (110::int) < 300 \<and> (0::int) \<le> 10 \<and> (10::int) < 300 \<and>
   \<bar>110 - 100 :: int\<bar> < 30 \<and>
   1 \<le> length (covering_tiles 300 300 110 10) \<and>
   2 \<le> length (covering_tiles 300 300 110 10)"
  using tile_coverage_300[of 110 10] by simp

section \<open>Properties of Python's rounding on the exact model\<close>

lemma round_half_even_cases:
  "round_half_even r = \<lfloor>r\<rfloor> \<and> r - of_int \<lfloor>r\<rfloor> \<le> 1 / 2
   \<or> round_half_even r = \<lfloor>r\<rfloor> + 1 \<and> 1 / 2 \<le> r - of_int \<lfloor>r\<rfloor>"
  by (auto simp: round_half_even_def Let_def)

lemma round_half_even_close: "\<bar>of_int (round_half_even r) - r\<bar> \<le> 1 / 2"
proof -
  have "of_int \<lfloor>r\<rfloor> \<le> r" "r < of_int \<lfloor>r\<rfloor> + 1" by linarith+
  then show ?thesis using round_half_even_cases[of r] by auto
qed

lemma round_half_even_ge: "of_int a \<le> r \<Longrightarrow> a \<le> round_half_even r"
proof -
  assume "of_int a \<le> r"
  then have "a \<le> \<lfloor>r\<rfloor>" by (simp add: le_floor_iff)
  then show ?thesis using round_half_even_cases[of r] by auto
qed

lemma round_half_even_le: "r \<le> of_int b \<Longrightarrow> round_half_even r \<le> b"
proof -
  assume le: "r \<le> of_int b"
  have fl: "\<lfloor>r\<rfloor> \<le> b" using le by linarith
  show ?thesis
  proof (cases "round_half_even r = \<lfloor>r\<rfloor>")
    case True
    then show ?thesis using fl by simp
  next
    case False
    then have up: "round_half_even r = \<lfloor>r\<rfloor> + 1" "1 / 2 \<le> r - of_int \<lfloor>r\<rfloor>"
      using round_half_even_cases[of r] by auto
    have "\<lfloor>r\<rfloor> \<noteq> b"
    proof
      assume "\<lfloor>r\<rfloor> = b"
      then have "r - of_int \<lfloor>r\<rfloor> \<le> 0" using le by simp
      then show False using up(2) by simp
    qed
    then show ?thesis using fl up(1) by simp
  qed
qed

lemma py_round2_close: "\<bar>py_round r 2 - r\<bar> \<le> 1 / 200"
proof -
  have "\<bar>of_int (round_half_even (r * 100)) - r * 100\<bar> \<le> 1 / 2"
    by (rule round_half_even_close)
  then show ?thesis by (simp add: py_round_def field_simps abs_le_iff)
qed

lemma py_round2_range:
  assumes "0 \<le> r" "r \<le> 100"
  shows "0 \<le> py_round r 2 \<and> py_round r 2 \<le> 100"
proof -
  have "of_int 0 \<le> r * 100" "r * 100 \<le> of_int 10000" using assms by simp_all
  then have "0 \<le> round_half_even (r * 100)" "round_half_even (r * 100) \<le> 10000"
    using round_half_even_ge[of 0 "r * 100"] round_half_even_le[of "r * 100" 10000] by simp_all
  then have "(0::real) \<le> of_int (round_half_even (r * 100))"
    "real_of_int (round_half_even (r * 100)) \<le> 10000"
    by linarith+
  then show ?thesis by (simp add: py_round_def)
qed

lemma py_int_close:
  assumes "\<bar>r - of_int n\<bar> < 1"
  shows "\<bar>py_int r - n\<bar> \<le> 1"
proof -
  have "of_int (n - 1) < r" "r < of_int (n + 1)" using assms by (simp_all add: abs_less_iff)
  then have "n - 1 \<le> \<lfloor>r\<rfloor>" "\<lfloor>r\<rfloor> \<le> n" "n \<le> \<lceil>r\<rceil>" "\<lceil>r\<rceil> \<le> n + 1"
    by linarith+
  then show ?thesis by (simp add: py_int_def)
qed

text \<open>The resize step leaves no side of the working image longer than 4096.\<close>

lemma py_int_le:
  assumes "0 \<le> r" "r \<le> of_int n"
  shows "py_int r \<le> n"
proof -
  have "\<lfloor>r\<rfloor> \<le> n" using assms(2) by linarith
  then show ?thesis using assms(1) by (simp add: py_int_def)
qed

lemma scaled_side:
  assumes "0 < a" "a \<le> m" "4096 < m"
  shows "py_int (real_of_int a * (real_of_int 4096 / real_of_int m)) \<le> 4096"
proof -
  have m: "0 < real_of_int m" using assms by simp
  have "real_of_int a * (real_of_int 4096 / real_of_int m) \<le> real_of_int 4096"
    using assms m by (simp add: field_simps)
  moreover have "0 \<le> real_of_int a * (real_of_int 4096 / real_of_int m)"
    using assms m by simp
  ultimately show ?thesis by (intro py_int_le) simp_all
qed

lemma working_size_bound:
  assumes "0 < orig_width" "0 < orig_height"
    and "working_size orig_width orig_height = (new_width, new_height)"
  shows "new_width \<le> 4096 \<and> new_height \<le> 4096"
proof (cases "4096 < max orig_height orig_width")
  case True
  then have "new_width = py_int (real_of_int orig_width *
        (real_of_int 4096 / real_of_int (max orig_height orig_width)))"
    "new_height = py_int (real_of_int orig_height *
        (real_of_int 4096 / real_of_int (max orig_height orig_width)))"
    using assms(3) by (simp_all add: working_size_def Let_def)
  then show ?thesis
    using scaled_side[OF assms(1) _ True] scaled_side[OF assms(2) _ True] by simp
next
  case False
  then show ?thesis using assms(3) by (auto simp: working_size_def Let_def)
qed

lemma roundtrip_extent:
  assumes "0 < extent" "extent \<le> 4096"
  shows "\<bar>to_pixel (to_percent (real_of_int v) extent) extent - v\<bar> \<le> 1"
proof -
  let ?E = "real_of_int extent"
  let ?r = "(real_of_int v / ?E) * 100"
  let ?p = "py_round ?r 2"
  have E: "0 < ?E" "?E \<le> 4096" using assms by simp_all
  have eq: "(?p / 100) * ?E - real_of_int v = (?p - ?r) * (?E / 100)"
    using E(1) by (simp add: field_simps)
  have "\<bar>(?p / 100) * ?E - real_of_int v\<bar> = \<bar>(?p - ?r) * (?E / 100)\<bar>"
    by (simp only: eq)
  also have "\<dots> = \<bar>?p - ?r\<bar> * \<bar>?E / 100\<bar>" by (rule abs_mult)
  also have "\<dots> = \<bar>?p - ?r\<bar> * (?E / 100)" using E(1) by simp
  also have "\<dots> \<le> (1 / 200) * (4096 / 100)"
    using py_round2_close[of ?r] E by (intro mult_mono) simp_all
  also have "\<dots> < 1" by simp
  finally show ?thesis
    unfolding to_pixel_def to_percent_def by (rule py_int_close)
qed

text \<open>
  C8: for an integer pixel coordinate \<open>(x, y)\<close> within a working image whose width and height
  are at most 4096, \<^verbatim>\<open>round((x / width) * 100, 2)\<close> followed by
  \<^verbatim>\<open>int((percent / 100) * width)\<close> gives a pixel that differs from \<open>x\<close> by at most 1, and
  the same holds for \<open>y\<close> and the height.
\<close>

theorem percent_roundtrip:
  assumes "0 < width" "width \<le> 4096" "0 < height" "height \<le> 4096"
    and "0 \<le> x" "x \<le> width" "0 \<le> y" "y \<le> height"
  shows "\<bar>to_pixel (to_percent (real_of_int x) width) width - x\<bar> \<le> 1 \<and>
         \<bar>to_pixel (to_percent (real_of_int y) height) height - y\<bar> \<le> 1"
  using roundtrip_extent[OF assms(1,2)] roundtrip_extent[OF assms(3,4)] by simp

theorem percent_roundtrip_witness:
  "(0::int) < 3 \<and> (3::int) \<le> 4096 \<and> (0::int) < 300 \<and> (300::int) \<le> 4096 \<and>
   (0::int) \<le> 1 \<and> (1::int) \<le> 3 \<and> (0::int) \<le> 150 \<and> (150::int) \<le> 300 \<and>
   \<bar>to_pixel (to_percent (real_of_int 1) 3) 3 - 1\<bar> \<le> 1 \<and>
   \<bar>to_pixel (to_percent (real_of_int 150) 300) 300 - 150\<bar> \<le> 1"
  using percent_roundtrip[of 3 300 1 150] by simp

section \<open>Properties of the result assembler\<close>

lemma to_percent_range:
  assumes "0 < extent" "0 \<le> v" "v \<le> real_of_int extent"
  shows "0 \<le> to_percent v extent \<and> to_percent v extent \<le> 100"
proof -
  have "0 \<le> v / real_of_int extent * 100" using assms by simp
  moreover have "v / real_of_int extent * 100 \<le> 100" using assms by (simp add: field_simps)
  ultimately show ?thesis unfolding to_percent_def by (rule py_round2_range)
qed

lemma mean_range:
  assumes "vs \<noteq> []" "\<forall>v\<in>set vs. 0 \<le> v \<and> v \<le> c"
  shows "0 \<le> mean vs \<and> mean vs \<le> c"
proof -
  have "0 \<le> sum_list vs \<and> sum_list vs \<le> c * real (length vs)"
    using assms(2) by (induction vs) (auto simp: algebra_simps)
  moreover have "0 < real (length vs)" using assms(1) by simp
  ultimately show ?thesis unfolding mean_def by (simp add: field_simps)
qed

lemma percent_point_polygon:
  assumes "0 < width" "0 < height" "list_all (in_image width height) pts"
  shows "list_all percent_point (map (\<lambda>(x, y). (to_percent x width, to_percent y height)) pts)"
  using assms(3)
  by (induction pts)
     (auto simp: in_image_def percent_point_def to_percent_range[OF assms(1)]
        to_percent_range[OF assms(2)])

lemma polygon_path:
  assumes "p_points pred = Some pts" "pts \<noteq> []" "width \<noteq> 0" "height \<noteq> 0"
  shows "polygon_and_center width height pred =
     Inr (Some (map (\<lambda>(x, y). (to_percent x width, to_percent y height)) pts,
                (mean (map fst (map (\<lambda>(x, y). (to_percent x width, to_percent y height)) pts)),
                 mean (map snd (map (\<lambda>(x, y). (to_percent x width, to_percent y height)) pts)))))"
  using assms by (simp add: polygon_and_center_def Let_def del: map_map)

lemma box_path:
  assumes "p_points pred = None" "width \<noteq> 0" "height \<noteq> 0"
  shows "polygon_and_center width height pred =
     Inr (Some (box_corners width height pred,
                (to_percent (get_or (p_x pred) 0) width, to_percent (get_or (p_y pred) 0) height)))"
  using assms by (simp add: polygon_and_center_def Let_def)

lemma polygon_and_center_range:
  assumes "within_image width height pred"
    and "polygon_and_center width height pred = Inr (Some (polygon, center))"
  shows "list_all percent_point polygon \<and> percent_point center"
proof (cases "p_points pred")
  case None
  let ?x = "get_or (p_x pred) 0" and ?y = "get_or (p_y pred) 0"
  let ?w = "get_or (p_width pred) 0" and ?h = "get_or (p_height pred) 0"
  have pos: "0 < width" "0 < height"
    using assms None unfolding within_image_def in_image_def polygon_and_center_def
    by (auto simp: Let_def split: if_splits)
  have c: "0 \<le> ?x - ?w / 2" "?x - ?w / 2 \<le> real_of_int width"
      "0 \<le> ?x + ?w / 2" "?x + ?w / 2 \<le> real_of_int width"
      "0 \<le> ?y - ?h / 2" "?y - ?h / 2 \<le> real_of_int height"
      "0 \<le> ?y + ?h / 2" "?y + ?h / 2 \<le> real_of_int height"
    using assms(1) None by (simp_all add: within_image_def in_image_def Let_def)
  then have m: "0 \<le> ?x" "?x \<le> real_of_int width" "0 \<le> ?y" "?y \<le> real_of_int height"
    by linarith+
  have eq: "polygon = box_corners width height pred"
     "center = (to_percent ?x width, to_percent ?y height)"
    using assms(2) box_path[OF None, of width height] pos by simp_all
  show ?thesis
    unfolding eq box_corners_def Let_def percent_point_def
    using to_percent_range[OF pos(1)] to_percent_range[OF pos(2)] c m by simp
next
  case (Some pts)
  have ne: "pts \<noteq> []" and pos: "0 < width" "0 < height"
    using assms Some unfolding within_image_def polygon_and_center_def
    by (cases pts; auto simp: in_image_def Let_def split: if_splits)+
  let ?poly = "map (\<lambda>(x, y). (to_percent x width, to_percent y height)) pts"
  have "polygon_and_center width height pred =
      Inr (Some (?poly, (mean (map fst ?poly), mean (map snd ?poly))))"
    by (rule polygon_path[OF Some ne]) (use pos in simp_all)
  with assms(2) have "Inr (Some (polygon, center)) =
      (Inr (Some (?poly, (mean (map fst ?poly), mean (map snd ?poly))))
        :: error + (point list \<times> point) option)"
    by (simp only:)
  then have eq: "polygon = ?poly" "center = (mean (map fst ?poly), mean (map snd ?poly))"
    by (simp_all only: sum.inject option.inject prod.inject)
  have poly: "list_all percent_point ?poly"
    using assms(1) Some pos by (intro percent_point_polygon) (simp_all add: within_image_def)
  then have "\<forall>v\<in>set (map fst ?poly). 0 \<le> v \<and> v \<le> 100" "\<forall>v\<in>set (map snd ?poly). 0 \<le> v \<and> v \<le> 100"
    by (auto simp: list_all_iff percent_point_def)
  moreover have "map fst ?poly \<noteq> []" "map snd ?poly \<noteq> []" using ne by simp_all
  ultimately have "0 \<le> mean (map fst ?poly) \<and> mean (map fst ?poly) \<le> 100"
      "0 \<le> mean (map snd ?poly) \<and> mean (map snd ?poly) \<le> 100"
    using mean_range by blast+
  then show ?thesis using poly unfolding eq percent_point_def by simp
qed

lemma assemble_one_hold:
  assumes "assemble_one sample width height confidence pred = Inr (Some h)"
  shows "\<exists>polygon center.
           polygon_and_center width height pred = Inr (Some (polygon, center)) \<and>
           h = make_hold sample width height pred (get_or (p_confidence pred) 0) polygon center"
  using assms
  by (auto simp: assemble_one_def Let_def split: if_splits sum.splits option.splits)

lemma assemble_one_range:
  assumes "within_image width height pred"
    and "assemble_one sample width height confidence pred = Inr (Some h)"
  shows "hold_in_range h"
proof -
  obtain polygon center where pc: "polygon_and_center width height pred = Inr (Some (polygon, center))"
    and h: "h = make_hold sample width height pred (get_or (p_confidence pred) 0) polygon center"
    using assemble_one_hold[OF assms(2)] by blast
  have "list_all percent_point polygon \<and> percent_point center"
    using assms(1) pc by (rule polygon_and_center_range)
  then show ?thesis
    unfolding h hold_in_range_def make_hold_def percent_point_def
    using py_round2_range by simp
qed

lemma assemble_sources:
  "assemble sample width height confidence preds = Inr detected \<Longrightarrow> h \<in> set detected \<Longrightarrow>
   \<exists>pred\<in>set preds. assemble_one sample width height confidence pred = Inr (Some h)"
proof (induction preds arbitrary: detected)
  case Nil
  then show ?case by simp
next
  case (Cons pred rest)
  then show ?case
    by (auto split: sum.splits option.splits)
qed

lemma assemble_emits:
  "assemble sample width height confidence preds = Inr detected \<Longrightarrow> pred \<in> set preds \<Longrightarrow>
   assemble_one sample width height confidence pred = Inr (Some h) \<Longrightarrow> h \<in> set detected"
proof (induction preds arbitrary: detected)
  case Nil
  then show ?case by simp
next
  case (Cons first rest)
  then show ?case
    by (auto split: sum.splits option.splits)
qed

lemma assemble_one_total:
  assumes "0 < width" "0 < height"
  shows "\<exists>r. assemble_one sample width height confidence pred = Inr r"
  using assms
  by (auto simp: assemble_one_def polygon_and_center_def Let_def split: option.splits)

lemma assemble_total:
  assumes "0 < width" "0 < height"
  shows "\<exists>detected. assemble sample width height confidence preds = Inr detected"
proof (induction preds)
  case Nil
  then show ?case by simp
next
  case (Cons pred rest)
  then show ?case
    using assemble_one_total[OF assms, of sample confidence pred] by auto
qed

section \<open>The pipeline on example services\<close>

lemma box_fields:
  "p_points (box_detection x y c) = None" "get_or (p_x (box_detection x y c)) 0 = x"
  "get_or (p_y (box_detection x y c)) 0 = y" "get_or (p_width (box_detection x y c)) 0 = 10"
  "get_or (p_height (box_detection x y c)) 0 = 10" "get_or (p_class (box_detection x y c)) d = d"
  by (simp_all add: box_detection_def get_or_def)

lemma to_percent_300:
  "to_percent 35 300 = 1167 / 100" "to_percent 45 300 = 15" "to_percent 55 300 = 1833 / 100"
  "to_percent 40 300 = 1333 / 100" "to_percent 50 300 = 1667 / 100"
  "to_percent (- 1) 300 = - (33 / 100)" "to_percent 9 300 = 3" "to_percent 4 300 = 133 / 100"
  "to_percent 5 300 = 167 / 100" "to_percent 15 300 = 5" "to_percent 10 300 = 333 / 100"
  by (simp_all add: to_percent_def py_round_def round_half_even_def Let_def)

lemma py_round_values:
  "py_round (1333 / 100) 2 = 1333 / 100" "py_round (1667 / 100) 2 = 1667 / 100"
  "py_round (133 / 100) 2 = 133 / 100" "py_round (9 / 10) 3 = 9 / 10"
  by (simp_all add: py_round_def round_half_even_def Let_def)

lemma assemble_box_40_50:
  "assemble gray_sample 300 300 (1 / 2) [box_detection 40 50 (9 / 10)] = Inr [centered_hold]"
  by (simp add: assemble_one_def conf_box box_path box_fields box_corners_def Let_def
        make_hold_def gray_sample_def to_percent_300 py_round_values centered_hold_def)

lemma assemble_box_4_50:
  "assemble gray_sample 300 300 (1 / 2) [box_detection 4 50 (9 / 10)] = Inr [edge_hold]"
  by (simp add: assemble_one_def conf_box box_path box_fields box_corners_def Let_def
        make_hold_def gray_sample_def to_percent_300 py_round_values edge_hold_def)

lemma call_api_first_200:
  "status_code (svc 0) = 200 \<Longrightarrow> fst (call_api svc 3) = parse_predictions (svc 0)"
  by (simp add: call_api_def Let_def)

lemma call_one_box:
  "fst (call_api (one_box x y row col) 3) =
     Inr (if row = 0 \<and> col = 0 then [box_detection x y (9 / 10)] else [])"
  by (simp add: call_api_first_200 one_box_def no_detections_def parse_predictions_def)

lemma adjust_box_origin: "adjust 0 0 (box_detection x y c) = Inr (box_detection x y c)"
  by (simp add: adjust_def box_detection_def)

lemma collect_one_box:
  "collect_tiles (one_box x y) 300 300 grid = Inr [box_detection x y (9 / 10)]"
  by (simp add: grid_cells call_one_box tile_bounds_300 adjust_box_origin)

lemma dedup_keep_single: "dedup_keep [p] t = [True]"
  by (simp add: dedup_keep_def dedup_outer.simps dedup_inner.simps)

lemma dedup_single_box:
  "deduplicate_predictions [box_detection x y c] 20 = [box_detection x y c]"
proof -
  have "nonempty_points [box_detection x y c] = [box_detection x y c]"
    by (simp add: nonempty_points_def points_box)
  then show ?thesis
    by (simp add: deduplicate_predictions_def Let_def dedup_keep_single)
qed

lemma detect_one_box:
  "detect_holds (one_box x y) sample 300 300 confidence =
     assemble sample 300 300 confidence [box_detection x y (9 / 10)]"
  by (simp add: detect_holds_def collect_one_box dedup_single_box del: assemble.simps)

section \<open>Claims about the assembled holds\<close>

lemma tile_bounds_inside:
  assumes "tile_bounds width height row col = (x1, y1, x2, y2)"
  shows "0 \<le> x1 \<and> x2 \<le> width \<and> 0 \<le> y1 \<and> y2 \<le> height"
  using assms by (auto simp: tile_bounds_def Let_def)

lemma adjust_within:
  assumes "within_image (x2 - x1) (y2 - y1) pred"
    and "0 \<le> x1" "x2 \<le> width" "0 \<le> y1" "y2 \<le> height"
    and "adjust x1 y1 pred = Inr pred'"
  shows "within_image width height pred'"
proof (cases "p_points pred")
  case None
  then obtain x y where xy: "p_x pred = Some x" "p_y pred = Some y"
    and p': "pred' = pred\<lparr>p_x := Some (x + real_of_int x1), p_y := Some (y + real_of_int y1)\<rparr>"
    using assms(6) by (auto simp: adjust_def split: option.splits)
  show ?thesis
    using assms(1-5) None xy unfolding p' within_image_def in_image_def
    by (simp add: get_or_def Let_def)
next
  case (Some pts)
  then have p': "pred' = pred\<lparr>p_points :=
      Some (map (\<lambda>(x, y). (x + real_of_int x1, y + real_of_int y1)) pts)\<rparr>"
    using assms(6) by (simp add: adjust_def)
  have "list_all (in_image (x2 - x1) (y2 - y1)) pts"
    using assms(1) Some by (simp add: within_image_def)
  then have "list_all (in_image width height)
      (map (\<lambda>(x, y). (x + real_of_int x1, y + real_of_int y1)) pts)"
    using assms(2-5) by (induction pts) (auto simp: in_image_def)
  then show ?thesis unfolding p' by (simp add: within_image_def)
qed

lemma adjust_all_within:
  assumes "0 \<le> x1" "x2 \<le> width" "0 \<le> y1" "y2 \<le> height"
  shows "list_all (within_image (x2 - x1) (y2 - y1)) preds \<Longrightarrow>
         adjust_all x1 y1 preds = Inr adjusted \<Longrightarrow>
         list_all (within_image width height) adjusted"
proof (induction preds arbitrary: adjusted)
  case Nil
  then show ?case by simp
next
  case (Cons pred rest)
  then obtain pred' rest' where a: "adjust x1 y1 pred = Inr pred'"
      "adjust_all x1 y1 rest = Inr rest'" "adjusted = pred' # rest'"
    by (auto split: sum.splits)
  have "within_image width height pred'"
    using adjust_within[OF _ assms a(1)] Cons.prems(1) by simp
  moreover have "list_all (within_image width height) rest'"
    using Cons.IH[OF _ a(2)] Cons.prems(1) by simp
  ultimately show ?case using a(3) by simp
qed

lemma collect_tiles_within:
  "list_all (tile_within svc width height) cells \<Longrightarrow>
   collect_tiles svc width height cells = Inr collected \<Longrightarrow>
   list_all (within_image width height) collected"
proof (induction cells arbitrary: collected)
  case Nil
  then show ?case by simp
next
  case (Cons cell cells)
  obtain row col where cell: "cell = (row, col)" by (cases cell)
  obtain x1 y1 x2 y2 where tb: "tile_bounds width height row col = (x1, y1, x2, y2)"
    by (cases "tile_bounds width height row col")
  from Cons.prems(2) cell tb obtain predictions adjusted later where
    c: "fst (call_api (svc row col) 3) = Inr predictions"
       "adjust_all x1 y1 predictions = Inr adjusted"
       "collect_tiles svc width height cells = Inr later"
       "collected = adjusted @ later"
    by (auto split: sum.splits)
  have "list_all (within_image (x2 - x1) (y2 - y1)) predictions"
    using Cons.prems(1) cell tb c(1) by (simp add: tile_within_def)
  then have "list_all (within_image width height) adjusted"
    using adjust_all_within[OF _ _ _ _ _ c(2)] tile_bounds_inside[OF tb] by blast
  moreover have "list_all (within_image width height) later"
    using Cons.IH[OF _ c(3)] Cons.prems(1) by simp
  ultimately show ?case using c(4) by simp
qed

text \<open>
  C5: of the detections that reach the assembler (the output of the deduplicator), one whose
  confidence equals the threshold gets a Hold, which is in the assembled list, and one whose
  confidence is strictly below the threshold gets none.
\<close>

theorem confidence_filter:
  assumes "0 < width" "0 < height" "pred \<in> set (deduplicate_predictions ps t)"
  shows "(get_or (p_confidence pred) 0 = confidence \<longrightarrow>
            (\<exists>h detected.
               assemble_one sample width height confidence pred = Inr (Some h) \<and>
               assemble sample width height confidence (deduplicate_predictions ps t)
                 = Inr detected \<and>
               h \<in> set detected)) \<and>
         (get_or (p_confidence pred) 0 < confidence \<longrightarrow>
            assemble_one sample width height confidence pred = Inr None)"
proof (intro conjI impI)
  assume eq: "get_or (p_confidence pred) 0 = confidence"
  have ne: "p_points pred \<noteq> Some []"
    using assms(3) dedup_subset[of ps t] by (auto simp: nonempty_points_def)
  have "\<exists>polygon center. polygon_and_center width height pred = Inr (Some (polygon, center))"
  proof (cases "p_points pred")
    case None
    then show ?thesis using box_path[OF None, of width height] assms(1,2) by simp
  next
    case (Some pts)
    then have "pts \<noteq> []" using ne by simp
    then show ?thesis using polygon_path[OF Some, of width height] assms(1,2) by simp
  qed
  then obtain h where h: "assemble_one sample width height confidence pred = Inr (Some h)"
    using eq by (auto simp: assemble_one_def Let_def)
  obtain detected where d:
    "assemble sample width height confidence (deduplicate_predictions ps t) = Inr detected"
    using assemble_total[OF assms(1,2)] by blast
  have "h \<in> set detected" using d assms(3) h by (rule assemble_emits)
  with h d show "\<exists>h detected.
               assemble_one sample width height confidence pred = Inr (Some h) \<and>
               assemble sample width height confidence (deduplicate_predictions ps t)
                 = Inr detected \<and>
               h \<in> set detected" by blast
next
  assume "get_or (p_confidence pred) 0 < confidence"
  then show "assemble_one sample width height confidence pred = Inr None"
    by (simp add: assemble_one_def Let_def)
qed

theorem confidence_filter_witness:
  "(0::int) < 300 \<and>
   box_detection 0 0 (9 / 10) \<in> set (deduplicate_predictions chain_example 20) \<and>
   get_or (p_confidence (box_detection 0 0 (9 / 10))) 0 = 9 / 10 \<and>
   (\<exists>h detected.
      assemble_one gray_sample 300 300 (9 / 10) (box_detection 0 0 (9 / 10)) = Inr (Some h) \<and>
      assemble gray_sample 300 300 (9 / 10) (deduplicate_predictions chain_example 20)
        = Inr detected \<and>
      h \<in> set detected) \<and>
   box_detection 30 0 (3 / 10) \<in> set (deduplicate_predictions chain_example 20) \<and>
   get_or (p_confidence (box_detection 30 0 (3 / 10))) 0 < 9 / 10 \<and>
   assemble_one gray_sample 300 300 (9 / 10) (box_detection 30 0 (3 / 10)) = Inr None"
proof -
  have m: "box_detection 0 0 (9 / 10) \<in> set (deduplicate_predictions chain_example 20)"
    "box_detection 30 0 (3 / 10) \<in> set (deduplicate_predictions chain_example 20)"
    by (simp_all add: chain_dedup)
  have c: "get_or (p_confidence (box_detection 0 0 (9 / 10))) 0 = 9 / 10"
    "get_or (p_confidence (box_detection 30 0 (3 / 10))) 0 < 9 / 10"
    by (simp_all add: conf_box)
  have pos: "(0::int) < 300" by simp
  from confidence_filter[OF pos pos m(1), of "9 / 10" gray_sample]
    confidence_filter[OF pos pos m(2), of "9 / 10" gray_sample] m c pos
  show ?thesis by blast
qed

text \<open>
  C6, as the code has it. The assembler does not clamp. When every detection the client
  returns lies inside the region submitted for its tile (all polygon points, or the corners
  \<open>(x \<plusminus> w / 2, y \<plusminus> h / 2)\<close> of the box), every polygon coordinate and both center
  coordinates of every emitted Hold are percentages in \<open>[0, 100]\<close>.
\<close>

theorem holds_within_percent_range:
  assumes "service_within_tiles svc width height"
    and "detect_holds svc sample width height confidence = Inr detected"
    and "h \<in> set detected"
  shows "hold_in_range h"
proof -
  obtain collected where col: "collect_tiles svc width height grid = Inr collected"
    and asm: "assemble sample width height confidence (deduplicate_predictions collected 20)
      = Inr detected"
    using assms(2) by (auto simp: detect_holds_def split: sum.splits)
  have inside: "list_all (within_image width height) collected"
    using assms(1) col unfolding service_within_tiles_def by (rule collect_tiles_within)
  obtain pred where pred: "pred \<in> set (deduplicate_predictions collected 20)"
    "assemble_one sample width height confidence pred = Inr (Some h)"
    using assemble_sources[OF asm assms(3)] by blast
  have "pred \<in> set collected"
    using pred(1) dedup_subset[of collected 20] by (auto simp: nonempty_points_def)
  then have "within_image width height pred" using inside by (simp add: list_all_iff)
  then show ?thesis using pred(2) by (rule assemble_one_range)
qed

lemma within_box:
  "within_image width height (box_detection x y c) \<longleftrightarrow>
     0 \<le> x - 5 \<and> x + 5 \<le> real_of_int width \<and> 0 \<le> y - 5 \<and> y + 5 \<le> real_of_int height"
  by (auto simp: within_image_def in_image_def box_fields Let_def)

lemma one_box_within:
  "service_within_tiles (one_box 40 50) 300 300"
  by (simp add: service_within_tiles_def grid_cells tile_within_def tile_bounds_300
        call_one_box within_box)

theorem holds_within_percent_range_witness:
  "service_within_tiles (one_box 40 50) 300 300 \<and>
   detect_holds (one_box 40 50) gray_sample 300 300 (1 / 2) = Inr [centered_hold] \<and>
   centered_hold \<in> set [centered_hold] \<and>
   hold_in_range centered_hold"
proof -
  have d: "detect_holds (one_box 40 50) gray_sample 300 300 (1 / 2) = Inr [centered_hold]"
    by (simp only: detect_one_box assemble_box_40_50)
  have m: "centered_hold \<in> set [centered_hold]" by simp
  from holds_within_percent_range[OF one_box_within d m] d m one_box_within
  show ?thesis by blast
qed

theorem holds_within_percent_range_counterexample:
  "tile_bounds 300 300 0 0 = (0, 0, 130, 130) \<and>
   fst (call_api (one_box 4 50 0 0) 3) = Inr [box_detection 4 50 (9 / 10)] \<and>
   in_image 130 130 (4, 50) \<and> in_image 130 130 (10, 10) \<and>
   detect_holds (one_box 4 50) gray_sample 300 300 (1 / 2) = Inr [edge_hold] \<and>
   fst (hd (h_polygon edge_hold)) < 0 \<and>
   \<not> hold_in_range edge_hold"
proof -
  have "detect_holds (one_box 4 50) gray_sample 300 300 (1 / 2) = Inr [edge_hold]"
    by (simp only: detect_one_box assemble_box_4_50)
  moreover have "tile_bounds 300 300 0 0 = (0, 0, 130, 130)"
    by (simp add: tile_bounds_300)
  moreover have "fst (call_api (one_box 4 50 0 0) 3) = Inr [box_detection 4 50 (9 / 10)]"
    by (simp add: call_one_box)
  moreover have "in_image 130 130 (4, 50) \<and> in_image 130 130 (10, 10)"
    by (simp add: in_image_def)
  moreover have "fst (hd (h_polygon edge_hold)) < 0 \<and> \<not> hold_in_range edge_hold"
    by (simp add: edge_hold_def hold_in_range_def percent_point_def)
  ultimately show ?thesis by blast
qed

lemma polygon_and_center_box_10:
  "polygon_and_center 300 300 (box_detection 10 10 c) =
     Inr (Some ([(167 / 100, 167 / 100), (5, 167 / 100), (5, 5), (167 / 100, 5)],
                (333 / 100, 333 / 100)))"
  by (simp add: box_path box_fields box_corners_def Let_def to_percent_300)

text \<open>
  C9: the two paths of lines 209 to 230. For a detection with a non-empty polygon the center
  is the arithmetic mean of the points after each was converted to a percentage and rounded
  to 2 decimals. For a box it is the stored pixel center converted to a percentage and
  rounded to 2 decimals, which is not in general the mean of the four corner points made
  from the box: for the 10 by 10 box at \<open>(10, 10)\<close> of a 300 by 300 image the center is
  3.33 and the mean of the corners is 3.335. The Hold that is emitted carries the center of
  either path rounded to 2 decimals.
\<close>

theorem center_paths:
  assumes "width \<noteq> 0" "height \<noteq> 0"
  shows "(p_points pred = Some pts \<and> pts \<noteq> [] \<longrightarrow>
            (let polygon = map (\<lambda>(x, y). (to_percent x width, to_percent y height)) pts
             in polygon_and_center width height pred =
                  Inr (Some (polygon, (mean (map fst polygon), mean (map snd polygon)))))) \<and>
         (p_points pred = None \<longrightarrow>
            polygon_and_center width height pred =
              Inr (Some (box_corners width height pred,
                         (to_percent (get_or (p_x pred) 0) width,
                          to_percent (get_or (p_y pred) 0) height)))) \<and>
         (\<exists>box polygon center.
            p_points box = None \<and>
            polygon_and_center 300 300 box = Inr (Some (polygon, center)) \<and>
            center \<noteq> (mean (map fst polygon), mean (map snd polygon))) \<and>
         (assemble_one sample width height confidence pred = Inr (Some h) \<longrightarrow>
            (\<exists>polygon center.
               polygon_and_center width height pred = Inr (Some (polygon, center)) \<and>
               h_polygon h = polygon \<and>
               h_center h = (py_round (fst center) 2, py_round (snd center) 2)))"
proof (intro conjI impI)
  assume "p_points pred = Some pts \<and> pts \<noteq> []"
  then show "let polygon = map (\<lambda>(x, y). (to_percent x width, to_percent y height)) pts
             in polygon_and_center width height pred =
                  Inr (Some (polygon, (mean (map fst polygon), mean (map snd polygon))))"
    unfolding Let_def using polygon_path[of pred pts width height] assms by blast
next
  assume "p_points pred = None"
  then show "polygon_and_center width height pred =
              Inr (Some (box_corners width height pred,
                         (to_percent (get_or (p_x pred) 0) width,
                          to_percent (get_or (p_y pred) 0) height)))"
    using assms by (rule box_path)
next
  let ?corners = "[(167 / 100, 167 / 100), (5, 167 / 100), (5, 5), (167 / 100, 5)] :: point list"
  have "((333 / 100, 333 / 100) :: point) \<noteq> (mean (map fst ?corners), mean (map snd ?corners))"
    by (simp add: mean_def)
  then show "\<exists>box polygon center.
            p_points box = None \<and>
            polygon_and_center 300 300 box = Inr (Some (polygon, center)) \<and>
            center \<noteq> (mean (map fst polygon), mean (map snd polygon))"
    using polygon_and_center_box_10[of 1] points_box[of 10 10 1] by blast
next
  assume "assemble_one sample width height confidence pred = Inr (Some h)"
  then obtain polygon center where
    "polygon_and_center width height pred = Inr (Some (polygon, center))"
    "h = make_hold sample width height pred (get_or (p_confidence pred) 0) polygon center"
    using assemble_one_hold by blast
  then show "\<exists>polygon center.
               polygon_and_center width height pred = Inr (Some (polygon, center)) \<and>
               h_polygon h = polygon \<and>
               h_center h = (py_round (fst center) 2, py_round (snd center) 2)"
    by (simp add: make_hold_def)
qed

lemma triangle_fields:
  "p_points triangle_detection = Some [(30, 30), (60, 30), (30, 60)]"
  "get_or (p_confidence triangle_detection) 0 = 8 / 10"
  "get_or (p_class triangle_detection) ''hold'' = ''jug''"
  by (simp_all add: triangle_detection_def get_or_def)

lemma to_percent_300_more:
  "to_percent 30 300 = 10" "to_percent 60 300 = 20"
  by (simp_all add: to_percent_def py_round_def round_half_even_def Let_def)

lemma py_round_more:
  "py_round (40 / 3) 2 = 1333 / 100" "py_round (333 / 100) 2 = 333 / 100"
  "py_round (4 / 5) 3 = 4 / 5"
  by (simp_all add: py_round_def round_half_even_def Let_def)

theorem center_paths_witness:
  "(300::int) \<noteq> 0 \<and>
   p_points triangle_detection = Some [(30, 30), (60, 30), (30, 60)] \<and>
   [(30, 30), (60, 30), (30, 60)] \<noteq> ([] :: point list) \<and>
   polygon_and_center 300 300 triangle_detection =
     Inr (Some ([(10, 10), (20, 10), (10, 20)], (40 / 3, 40 / 3))) \<and>
   p_points (box_detection 10 10 (9 / 10)) = None \<and>
   polygon_and_center 300 300 (box_detection 10 10 (9 / 10)) =
     Inr (Some ([(167 / 100, 167 / 100), (5, 167 / 100), (5, 5), (167 / 100, 5)],
                (333 / 100, 333 / 100))) \<and>
   assemble_one gray_sample 300 300 (1 / 2) triangle_detection =
     Inr (Some \<lparr>h_polygon = [(10, 10), (20, 10), (10, 20)],
                h_center = (1333 / 100, 1333 / 100), h_dominant_color = ''#888888'',
                h_confidence = 8 / 10, h_class = ''jug''\<rparr>) \<and>
   h_center \<lparr>h_polygon = [(10, 10), (20, 10), (10, 20)],
             h_center = (1333 / 100, 1333 / 100), h_dominant_color = ''#888888'',
             h_confidence = 8 / 10, h_class = ''jug''\<rparr>
     = (py_round (fst (40 / 3 :: real, 40 / 3 :: real)) 2,
        py_round (snd (40 / 3 :: real, 40 / 3 :: real)) 2)"
proof -
  let ?tri = "[(30, 30), (60, 30), (30, 60)] :: point list"
  let ?h = "\<lparr>h_polygon = [(10, 10), (20, 10), (10, 20)],
             h_center = (1333 / 100, 1333 / 100), h_dominant_color = ''#888888'',
             h_confidence = 8 / 10, h_class = ''jug''\<rparr>"
  have nz: "(300::int) \<noteq> 0" by simp
  have ne: "?tri \<noteq> []" by simp
  note t = center_paths[OF nz nz, of triangle_detection ?tri gray_sample "1 / 2" ?h]
  note b = center_paths[OF nz nz, of "box_detection 10 10 (9 / 10)" ?tri gray_sample "1 / 2" ?h]
  have tri: "polygon_and_center 300 300 triangle_detection =
     Inr (Some ([(10, 10), (20, 10), (10, 20)], (40 / 3, 40 / 3)))"
    using t triangle_fields(1) ne
    by (simp add: Let_def to_percent_300_more mean_def)
  have box: "polygon_and_center 300 300 (box_detection 10 10 (9 / 10)) =
     Inr (Some ([(167 / 100, 167 / 100), (5, 167 / 100), (5, 5), (167 / 100, 5)],
                (333 / 100, 333 / 100)))"
    using b points_box[of 10 10 "9 / 10"]
    by (simp add: box_fields box_corners_def Let_def to_percent_300)
  have asm: "assemble_one gray_sample 300 300 (1 / 2) triangle_detection = Inr (Some ?h)"
    by (simp add: assemble_one_def triangle_fields tri make_hold_def gray_sample_def
          py_round_more)
  have hc: "h_center ?h = (py_round (fst (40 / 3 :: real, 40 / 3 :: real)) 2,
        py_round (snd (40 / 3 :: real, 40 / 3 :: real)) 2)"
    using t asm tri by simp
  from nz triangle_fields(1) ne tri points_box[of 10 10 "9 / 10"] box asm hc
  show ?thesis by blast
qed

end
